theory Spec2Isabelle
  imports Main "HOL-Library.Signed_Division"
begin

section \<open>Machine integers, failures and arrays\<close>

text \<open>
  The four printer classes are templates over \<^verbatim>\<open>NumberType\<close>. main.cpp instantiates them
  with \<^verbatim>\<open>int\<close> and \<^verbatim>\<open>long long\<close>. A numeric type is described by its width and its
  signedness; its values are mathematical integers. The operands of type \<^verbatim>\<open>short\<close> (the
  base, a digit) are converted to the number type before the operation; the model covers
  number types at least as wide as \<^verbatim>\<open>int\<close>, where that conversion keeps the value of a
  non-negative \<^verbatim>\<open>short\<close> and the operation is carried out in the number type itself.
  The result of \<^verbatim>\<open>*\<close>, \<^verbatim>\<open>+\<close> or \<^verbatim>\<open>-\<close> in an unsigned number type is reduced modulo
  \<open>2 ^ bits\<close>; in a signed number type a result outside the range of the type is undefined
  in C++ and a failure of the model (\<open>num_result\<close> below). A conversion to \<^verbatim>\<open>short\<close> is
  reduced with \<open>wrap\<close> (two's complement wrap-around).
\<close>

record numtype =
  bits :: nat
  is_signed :: bool

definition max_val :: "numtype \<Rightarrow> int" where
  "max_val T = (if is_signed T then 2 ^ (bits T - 1) - 1 else 2 ^ bits T - 1)"

definition wrap :: "numtype \<Rightarrow> int \<Rightarrow> int" where
  "wrap T x =
     (if is_signed T
      then (x + 2 ^ (bits T - 1)) mod 2 ^ bits T - 2 ^ (bits T - 1)
      else x mod 2 ^ bits T)"

definition short_t :: numtype where
  "short_t = \<lparr>bits = 16, is_signed = True\<rparr>"

definition int_t :: numtype where
  "int_t = \<lparr>bits = 32, is_signed = True\<rparr>"

definition long_long_t :: numtype where
  "long_long_t = \<lparr>bits = 64, is_signed = True\<rparr>"

text \<open>A conversion to \<^verbatim>\<open>short\<close>: the cast \<^verbatim>\<open>(short)(...)\<close> and the stores into
  \<^verbatim>\<open>short\<close> variables.\<close>

definition to_short :: "int \<Rightarrow> int" where
  "to_short x = wrap short_t x"

text \<open>
  What the C++ leaves undefined is a failure of the model: a failed \<^verbatim>\<open>assert\<close>, an
  access outside an array, a division by zero, the overflow of a signed operation, and the
  use of an array cell that was never written (or, for the power table, of a cell at or
  beyond \<^verbatim>\<open>_powers_length\<close>).
  The member arrays are \<^verbatim>\<open>_alphabet\<close>, \<^verbatim>\<open>_alphabet_sqr\<close>, \<^verbatim>\<open>_powers\<close> and \<^verbatim>\<open>_buffer\<close>;
  a failed access names its array.
\<close>

datatype array = Alphabet | Alphabet_Sqr | Powers | Buffer

datatype error =
    Assertion_Failed
  | Out_Of_Bounds array
  | Division_By_Zero
  | Uninitialized_Read array
  | Signed_Overflow

text \<open>The mathematical result \<open>x\<close> of an operation \<^verbatim>\<open>*\<close>, \<^verbatim>\<open>+\<close> or \<^verbatim>\<open>-\<close> carried out in
  the number type.\<close>

definition num_result :: "numtype \<Rightarrow> int \<Rightarrow> error + int" where
  "num_result T x =
     (if is_signed T
      then (if - (2 ^ (bits T - 1)) \<le> x \<and> x \<le> max_val T then Inr x else Inl Signed_Overflow)
      else Inr (wrap T x))"

text \<open>The operators \<^verbatim>\<open>/\<close> and \<^verbatim>\<open>%\<close> of C++ truncate towards zero.\<close>

definition c_div :: "int \<Rightarrow> int \<Rightarrow> error + int" where
  "c_div a b = (if b = 0 then Inl Division_By_Zero else Inr (a sdiv b))"

definition c_mod :: "int \<Rightarrow> int \<Rightarrow> error + int" where
  "c_mod a b = (if b = 0 then Inl Division_By_Zero else Inr (a smod b))"

text \<open>
  A \<^verbatim>\<open>char\<close> array of fixed capacity is a partial map from the index to the character
  stored there; \<open>None\<close> is a cell that was never written. The capacity is checked at
  every access.
\<close>

type_synonym chars = "nat \<rightharpoonup> char"

definition read_char :: "array \<Rightarrow> nat \<Rightarrow> chars \<Rightarrow> int \<Rightarrow> error + char" where
  "read_char arr cap a i =
     (if i < 0 \<or> int cap \<le> i then Inl (Out_Of_Bounds arr)
      else case a (nat i) of None \<Rightarrow> Inl (Uninitialized_Read arr) | Some c \<Rightarrow> Inr c)"

text \<open>
  The loops of \<^verbatim>\<open>setup_default_alphabet\<close>, the same in the four classes:
  \<^verbatim>\<open>for ( char ch = '0'; ch <= '9' && L < _base; ++ch ) _alphabet[ L++ ] = ch;\<close>
  and then the same over \<^verbatim>\<open>'a'\<close> to \<^verbatim>\<open>'z'\<close>. \<open>attach\<close> runs one of them over the
  characters of the range, from the current length \<open>L\<close>.
\<close>

fun attach :: "nat \<Rightarrow> int \<Rightarrow> string \<Rightarrow> int \<times> chars \<Rightarrow> error + (int \<times> chars)" where
  "attach cap b [] (L, a) = Inr (L, a)"
| "attach cap b (ch # chs) (L, a) =
     (if L < b
      then (if L < 0 \<or> int cap \<le> L then Inl (Out_Of_Bounds Alphabet)
            else attach cap b chs (L + 1, a(nat L \<mapsto> ch)))
      else Inr (L, a))"

definition decimal_digits :: string where
  "decimal_digits = ''0123456789''"

definition lower_letters :: string where
  "lower_letters = ''abcdefghijklmnopqrstuvwxyz''"

text \<open>
  \<^verbatim>\<open>strcpy_s( _alphabet, alphabet_.c_str() )\<close>: the characters of the string and the
  terminating null character are copied to the front of the array; a string that does
  not fit with its terminator is a constraint violation.
\<close>

fun store_chars :: "nat \<Rightarrow> string \<Rightarrow> chars \<Rightarrow> chars" where
  "store_chars i [] a = a"
| "store_chars i (c # cs) a = store_chars (Suc i) cs (a(i \<mapsto> c))"


text \<open>
  \<^verbatim>\<open>calculate_alphabet_sqr\<close>, the same in the two paired classes: for every \<open>i\<close> and
  \<open>j\<close> below the base, in this order, the cells \<open>L\<close> and \<open>L + 1\<close> receive
  \<^verbatim>\<open>_alphabet[ i ]\<close> and \<^verbatim>\<open>_alphabet[ j ]\<close> (copied as they are, written or not), and
  \<open>L\<close> advances by two. \<open>cap\<close> is the capacity of \<^verbatim>\<open>_alphabet\<close>; \<^verbatim>\<open>_alphabet_sqr\<close>
  has \<open>2 * cap * cap\<close> cells.
\<close>

fun sqr_inner :: "nat \<Rightarrow> chars \<Rightarrow> nat \<Rightarrow> nat list \<Rightarrow> nat \<times> chars \<Rightarrow> error + (nat \<times> chars)" where
  "sqr_inner cap a i [] (L, s) = Inr (L, s)"
| "sqr_inner cap a i (j # js) (L, s) =
     (if cap \<le> i then Inl (Out_Of_Bounds Alphabet)
      else if 2 * cap * cap \<le> L then Inl (Out_Of_Bounds Alphabet_Sqr)
      else if cap \<le> j then Inl (Out_Of_Bounds Alphabet)
      else if 2 * cap * cap \<le> L + 1 then Inl (Out_Of_Bounds Alphabet_Sqr)
      else sqr_inner cap a i js (L + 2, s(L := a i, L + 1 := a j)))"

fun sqr_outer :: "nat \<Rightarrow> chars \<Rightarrow> nat list \<Rightarrow> nat list \<Rightarrow> nat \<times> chars \<Rightarrow> error + (nat \<times> chars)" where
  "sqr_outer cap a [] js (L, s) = Inr (L, s)"
| "sqr_outer cap a (i # is) js (L, s) =
     (case sqr_inner cap a i js (L, s) of
        Inl e \<Rightarrow> Inl e
      | Inr Ls \<Rightarrow> sqr_outer cap a is js Ls)"

definition calculate_alphabet_sqr :: "nat \<Rightarrow> int \<Rightarrow> chars \<Rightarrow> chars \<Rightarrow> error + chars" where
  "calculate_alphabet_sqr cap b a s =
     (case sqr_outer cap a [0..<nat b] [0..<nat b] (0, s) of
        Inl e \<Rightarrow> Inl e
      | Inr (L, s') \<Rightarrow>
          if int L = 2 * b * b then Inr s' else Inl Assertion_Failed)"

section \<open>modulo\_printer\<close>

text \<open>
  The class keeps the base and the alphabet. Its scratch buffer \<^verbatim>\<open>_buffer\<close> is written
  from the right: the model carries the index \<open>ptr\<close> of the write pointer and the
  characters from \<open>ptr\<close> up to the terminator at \<^verbatim>\<open>DIGITS_MAX - 1\<close>, which
  \<^verbatim>\<open>prepare_buffer\<close> sets.
\<close>

definition mp_BASE_MAX :: nat where
  "mp_BASE_MAX = 10 + 26"

definition mp_DIGITS_MAX :: nat where
  "mp_DIGITS_MAX = 64 + 7"

record modulo_printer =
  mp_base :: int
  mp_alphabet :: chars

text \<open>The loop \<^verbatim>\<open>do { *--ptr = _alphabet[ x % _base ]; x /= _base; } while ( x != 0 );\<close>\<close>

function mp_loop :: "modulo_printer \<Rightarrow> int \<Rightarrow> int \<times> string \<Rightarrow> error + (int \<times> string)" where
  "mp_loop P x (ptr, out) =
     (case c_mod x (mp_base P) of
        Inl e \<Rightarrow> Inl e
      | Inr d \<Rightarrow>
         (case read_char Alphabet mp_BASE_MAX (mp_alphabet P) d of
            Inl e \<Rightarrow> Inl e
          | Inr c \<Rightarrow>
             if ptr \<le> 0 then Inl (Out_Of_Bounds Buffer)
             else (case c_div x (mp_base P) of
                     Inl e \<Rightarrow> Inl e
                   | Inr x' \<Rightarrow>
                      if x' \<noteq> 0 then mp_loop P x' (ptr - 1, c # out)
                      else Inr (ptr - 1, c # out))))"
  by pat_completeness auto
termination
  by (relation "measure (\<lambda>(P, x, ptr, out). nat ptr)") auto

definition mp_print_to_buffer :: "modulo_printer \<Rightarrow> int \<Rightarrow> error + (int \<times> string)" where
  "mp_print_to_buffer P x =
     (let ptr = int mp_DIGITS_MAX - 1 in
      if x = 0
      then (case read_char Alphabet mp_BASE_MAX (mp_alphabet P) 0 of
              Inl e \<Rightarrow> Inl e
            | Inr c \<Rightarrow> if ptr \<le> 0 then Inl (Out_Of_Bounds Buffer) else Inr (ptr - 1, [c]))
      else mp_loop P x (ptr, []))"

text \<open>\<^verbatim>\<open>print( x, buf )\<close>: the digit count and the text copied to \<^verbatim>\<open>buf\<close>.\<close>

definition mp_print :: "modulo_printer \<Rightarrow> int \<Rightarrow> error + (int \<times> string)" where
  "mp_print P x =
     (case mp_print_to_buffer P x of
        Inl e \<Rightarrow> Inl e
      | Inr (ptr, str) \<Rightarrow> Inr (int mp_DIGITS_MAX - 1 - ptr, str))"

definition mp_setup_default_alphabet :: "modulo_printer \<Rightarrow> error + modulo_printer" where
  "mp_setup_default_alphabet P =
     (if \<not> mp_base P \<le> 10 + 26 then Inl Assertion_Failed
      else case attach mp_BASE_MAX (mp_base P) decimal_digits (0, mp_alphabet P) of
             Inl e \<Rightarrow> Inl e
           | Inr La \<Rightarrow>
              (case attach mp_BASE_MAX (mp_base P) lower_letters La of
                 Inl e \<Rightarrow> Inl e
               | Inr (L, a) \<Rightarrow>
                  if L = mp_base P then Inr (P\<lparr>mp_alphabet := a\<rparr>)
                  else Inl Assertion_Failed))"

definition mp_set_base :: "modulo_printer \<Rightarrow> int \<Rightarrow> modulo_printer" where
  "mp_set_base P b = P\<lparr>mp_base := b\<rparr>"



section \<open>modulo\_printer\_2\_digits\<close>

definition mp2_BASE_MAX :: nat where
  "mp2_BASE_MAX = 10 + 26"

definition mp2_DIGITS_MAX :: nat where
  "mp2_DIGITS_MAX = 64 + 5"

record modulo_printer_2_digits =
  mp2_base :: int
  mp2_base_sqr :: int
  mp2_alphabet :: chars
  mp2_alphabet_sqr :: chars

text \<open>The loop \<^verbatim>\<open>while ( x >= _base )\<close> of \<^verbatim>\<open>print_to_buffer\<close>, two digits a step.\<close>

function mp2_loop :: "numtype \<Rightarrow> modulo_printer_2_digits \<Rightarrow> int \<Rightarrow> int \<times> string
    \<Rightarrow> error + (int \<times> int \<times> string)" where
  "mp2_loop T P x (ptr, out) =
     (if x \<ge> mp2_base P
      then (case c_mod x (mp2_base_sqr P) of
              Inl e \<Rightarrow> Inl e
            | Inr r \<Rightarrow>
               (case num_result T (2 * r) of
                  Inl e \<Rightarrow> Inl e
                | Inr r2 \<Rightarrow>
                   (let pairs_index = to_short r2 in
                    case read_char Alphabet_Sqr (2 * mp2_BASE_MAX * mp2_BASE_MAX) (mp2_alphabet_sqr P) (pairs_index + 1) of
                      Inl e \<Rightarrow> Inl e
                    | Inr c1 \<Rightarrow>
                       if ptr \<le> 0 then Inl (Out_Of_Bounds Buffer)
                       else (case read_char Alphabet_Sqr (2 * mp2_BASE_MAX * mp2_BASE_MAX) (mp2_alphabet_sqr P) pairs_index of
                               Inl e \<Rightarrow> Inl e
                             | Inr c0 \<Rightarrow>
                                if ptr - 1 \<le> 0 then Inl (Out_Of_Bounds Buffer)
                                else (case c_div x (mp2_base_sqr P) of
                                        Inl e \<Rightarrow> Inl e
                                      | Inr x' \<Rightarrow> mp2_loop T P x' (ptr - 2, c0 # c1 # out))))))
      else Inr (x, ptr, out))"
  by pat_completeness auto
termination
  by (relation "measure (\<lambda>(T, P, x, ptr, out). nat ptr)") auto

text \<open>The end of \<^verbatim>\<open>print_to_buffer\<close>, after the loop: \<^verbatim>\<open>if ( x > 0 )\<close>, one digit remains.\<close>

definition mp2_last_digit :: "modulo_printer_2_digits \<Rightarrow> int \<times> int \<times> string
    \<Rightarrow> error + (int \<times> string)" where
  "mp2_last_digit P r =
     (case r of (x, ptr, out) \<Rightarrow>
        if x > 0
        then (if \<not> x < mp2_base P then Inl Assertion_Failed
              else case read_char Alphabet mp2_BASE_MAX (mp2_alphabet P) x of
                     Inl e \<Rightarrow> Inl e
                   | Inr c \<Rightarrow>
                      if ptr \<le> 0 then Inl (Out_Of_Bounds Buffer)
                      else Inr (ptr - 1, c # out))
        else Inr (ptr, out))"

definition mp2_print_to_buffer :: "numtype \<Rightarrow> modulo_printer_2_digits \<Rightarrow> int
    \<Rightarrow> error + (int \<times> string)" where
  "mp2_print_to_buffer T P x =
     (let ptr = int mp2_DIGITS_MAX - 1 in
      if x = 0
      then (case read_char Alphabet mp2_BASE_MAX (mp2_alphabet P) 0 of
              Inl e \<Rightarrow> Inl e
            | Inr c \<Rightarrow> if ptr \<le> 0 then Inl (Out_Of_Bounds Buffer) else Inr (ptr - 1, [c]))
      else (case mp2_loop T P x (ptr, []) of
              Inl e \<Rightarrow> Inl e
            | Inr r \<Rightarrow> mp2_last_digit P r))"

definition mp2_print :: "numtype \<Rightarrow> modulo_printer_2_digits \<Rightarrow> int \<Rightarrow> error + (int \<times> string)" where
  "mp2_print T P x =
     (case mp2_print_to_buffer T P x of
        Inl e \<Rightarrow> Inl e
      | Inr (ptr, str) \<Rightarrow> Inr (int mp2_DIGITS_MAX - 1 - ptr, str))"

definition mp2_calculate_alphabet_sqr :: "modulo_printer_2_digits \<Rightarrow> error + modulo_printer_2_digits" where
  "mp2_calculate_alphabet_sqr P =
     (case calculate_alphabet_sqr mp2_BASE_MAX (mp2_base P) (mp2_alphabet P) (mp2_alphabet_sqr P) of
        Inl e \<Rightarrow> Inl e
      | Inr s \<Rightarrow> Inr (P\<lparr>mp2_alphabet_sqr := s\<rparr>))"

definition mp2_set_base :: "modulo_printer_2_digits \<Rightarrow> int \<Rightarrow> error + modulo_printer_2_digits" where
  "mp2_set_base P b =
     mp2_calculate_alphabet_sqr (P\<lparr>mp2_base := b, mp2_base_sqr := to_short (b * b)\<rparr>)"


definition mp2_setup_default_alphabet :: "modulo_printer_2_digits \<Rightarrow> error + modulo_printer_2_digits" where
  "mp2_setup_default_alphabet P =
     (if \<not> mp2_base P \<le> int mp2_BASE_MAX then Inl Assertion_Failed
      else case attach mp2_BASE_MAX (mp2_base P) decimal_digits (0, mp2_alphabet P) of
             Inl e \<Rightarrow> Inl e
           | Inr La \<Rightarrow>
              (case attach mp2_BASE_MAX (mp2_base P) lower_letters La of
                 Inl e \<Rightarrow> Inl e
               | Inr (L, a) \<Rightarrow>
                  if L = mp2_base P then mp2_calculate_alphabet_sqr (P\<lparr>mp2_alphabet := a\<rparr>)
                  else Inl Assertion_Failed))"

text \<open>The constructor \<^verbatim>\<open>modulo_printer_2_digits( short base_ = 10 )\<close>:
  \<^verbatim>\<open>set_base( base_ ); setup_default_alphabet();\<close>\<close>

definition mp2_new :: "int \<Rightarrow> error + modulo_printer_2_digits" where
  "mp2_new b =
     (case mp2_set_base \<lparr>mp2_base = - 1, mp2_base_sqr = 0,
                         mp2_alphabet = Map.empty, mp2_alphabet_sqr = Map.empty\<rparr> b of
        Inl e \<Rightarrow> Inl e
      | Inr P \<Rightarrow> mp2_setup_default_alphabet P)"

section \<open>lr\_printer\<close>

text \<open>
  \<^verbatim>\<open>_powers\<close> and \<^verbatim>\<open>_powers_length\<close> are one list: the entries below
  \<^verbatim>\<open>_powers_length\<close>, so that \<^verbatim>\<open>_powers_length\<close> is its length and
  \<^verbatim>\<open>_powers[ _powers_length - 1 ]\<close> its last element. A pointer into \<^verbatim>\<open>_powers\<close> is the
  index it points at. The characters written through the output iterator are returned
  as a string.
\<close>

definition lr_MAX_BASE :: nat where
  "lr_MAX_BASE = 10 + 26"

definition lr_MAX_DIGITS :: nat where
  "lr_MAX_DIGITS = 70"

record lr_printer =
  lr_base :: int
  lr_alphabet :: chars
  lr_reached_max_power :: bool
  lr_powers :: "int list"

definition lr_append_helper_data :: "numtype \<Rightarrow> lr_printer \<Rightarrow> error + (bool \<times> lr_printer)" where
  "lr_append_helper_data T P =
     (if lr_powers P = [] then Inl (Out_Of_Bounds Powers)
      else case num_result T (last (lr_powers P) * lr_base P) of
          Inl e \<Rightarrow> Inl e
        | Inr new_power \<Rightarrow>
           (case c_div new_power (lr_base P) of
              Inl e \<Rightarrow> Inl e
            | Inr q \<Rightarrow>
               if q \<noteq> last (lr_powers P) then Inr (False, P)
               else if lr_MAX_DIGITS \<le> length (lr_powers P) then Inl (Out_Of_Bounds Powers)
               else Inr (True, P\<lparr>lr_powers := lr_powers P @ [new_power]\<rparr>)))"

fun lr_init_loop :: "numtype \<Rightarrow> nat \<Rightarrow> lr_printer \<Rightarrow> error + lr_printer" where
  "lr_init_loop T 0 P = Inr P"
| "lr_init_loop T (Suc n) P =
     (case lr_append_helper_data T P of
        Inl e \<Rightarrow> Inl e
      | Inr (ok, P') \<Rightarrow> lr_init_loop T n P')"

definition DATA_INIT_LENGTH :: nat where
  "DATA_INIT_LENGTH = 4"

definition lr_init_helper_data :: "numtype \<Rightarrow> lr_printer \<Rightarrow> error + lr_printer" where
  "lr_init_helper_data T P =
     lr_init_loop T (DATA_INIT_LENGTH - 1) (P\<lparr>lr_reached_max_power := False, lr_powers := [1]\<rparr>)"

text \<open>The loop \<^verbatim>\<open>while ( _powers[ _powers_length - 1 ] <= num )\<close> of
  \<^verbatim>\<open>get_max_power_ptr\<close>; \<open>Some k\<close> is its \<^verbatim>\<open>return\<close> of the index \<open>k\<close>, \<open>None\<close> its
  normal end.\<close>

function lr_grow :: "numtype \<Rightarrow> lr_printer \<Rightarrow> int \<Rightarrow> error + (int option \<times> lr_printer)" where
  "lr_grow T P num =
     (if lr_powers P = [] then Inl (Out_Of_Bounds Powers)
      else if last (lr_powers P) \<le> num
      then (case lr_append_helper_data T P of
              Inl e \<Rightarrow> Inl e
            | Inr (ok, P') \<Rightarrow>
               if \<not> ok
               then Inr (Some (int (length (lr_powers P')) - 1), P'\<lparr>lr_reached_max_power := True\<rparr>)
               else lr_grow T P' num)
      else Inr (None, P))"
  by pat_completeness auto
termination
  by (relation "measure (\<lambda>(T, P, num). lr_MAX_DIGITS - length (lr_powers P))")
     (auto simp: lr_append_helper_data_def Let_def split: sum.splits if_splits)

text \<open>The loop \<^verbatim>\<open>while ( *power_ptr <= num ) ++power_ptr;\<close>\<close>

function lr_scan :: "lr_printer \<Rightarrow> int \<Rightarrow> nat \<Rightarrow> error + nat" where
  "lr_scan P num i =
     (if length (lr_powers P) \<le> i then Inl (Uninitialized_Read Powers)
      else if lr_powers P ! i \<le> num then lr_scan P num (i + 1)
      else Inr i)"
  by pat_completeness auto
termination
  by (relation "measure (\<lambda>(P, num, i). length (lr_powers P) - i)") auto

definition lr_find_power :: "lr_printer \<Rightarrow> int \<Rightarrow> error + (int \<times> lr_printer)" where
  "lr_find_power P num =
     (case lr_scan P num 0 of
        Inl e \<Rightarrow> Inl e
      | Inr i \<Rightarrow> Inr (int i - 1, P))"

definition lr_get_max_power_ptr :: "numtype \<Rightarrow> lr_printer \<Rightarrow> int \<Rightarrow> error + (int \<times> lr_printer)" where
  "lr_get_max_power_ptr T P num =
     (if lr_reached_max_power P
      then (if lr_powers P = [] then Inl (Out_Of_Bounds Powers)
            else if last (lr_powers P) \<le> num
            then Inr (int (length (lr_powers P)) - 1, P)
            else lr_find_power P num)
      else (case lr_grow T P num of
              Inl e \<Rightarrow> Inl e
            | Inr (Some k, P') \<Rightarrow> Inr (k, P')
            | Inr (None, P') \<Rightarrow> lr_find_power P' num))"

text \<open>The loop \<^verbatim>\<open>for ( ; power_ptr >= _powers; --power_ptr )\<close> of
  \<^verbatim>\<open>print_to_out_iter\<close>; it returns what remains of the number and the output.\<close>

function lr_print_loop :: "numtype \<Rightarrow> lr_printer \<Rightarrow> int \<Rightarrow> int \<Rightarrow> string
    \<Rightarrow> error + (int \<times> string)" where
  "lr_print_loop T P k num out =
     (if 0 \<le> k
      then (if int (length (lr_powers P)) \<le> k then Inl (Uninitialized_Read Powers)
            else case c_div num (lr_powers P ! nat k) of
              Inl e \<Rightarrow> Inl e
            | Inr q \<Rightarrow>
               (let digit = to_short q in
                if \<not> 0 \<le> digit then Inl Assertion_Failed
                else if \<not> digit < lr_base P then Inl Assertion_Failed
                else case read_char Alphabet lr_MAX_BASE (lr_alphabet P) digit of
                  Inl e \<Rightarrow> Inl e
                | Inr c \<Rightarrow>
                   (case num_result T (digit * (lr_powers P ! nat k)) of
                      Inl e \<Rightarrow> Inl e
                    | Inr part \<Rightarrow>
                       (case num_result T (num - part) of
                          Inl e \<Rightarrow> Inl e
                        | Inr num' \<Rightarrow> lr_print_loop T P (k - 1) num' (out @ [c])))))
      else Inr (num, out))"
  by pat_completeness auto
termination
  by (relation "measure (\<lambda>(T, P, k, num, out). nat (k + 1))") auto

definition lr_print_to_out_iter :: "numtype \<Rightarrow> lr_printer \<Rightarrow> int \<Rightarrow> error + (string \<times> lr_printer)" where
  "lr_print_to_out_iter T P num =
     (if num = 0
      then (case read_char Alphabet lr_MAX_BASE (lr_alphabet P) 0 of
              Inl e \<Rightarrow> Inl e
            | Inr c \<Rightarrow> Inr ([c], P))
      else (case lr_get_max_power_ptr T P num of
              Inl e \<Rightarrow> Inl e
            | Inr (k, P') \<Rightarrow>
               (case lr_print_loop T P' k num [] of
                  Inl e \<Rightarrow> Inl e
                | Inr (num', out) \<Rightarrow>
                   if num' = 0 then Inr (out, P') else Inl Assertion_Failed)))"

text \<open>\<^verbatim>\<open>print( x, buf )\<close>: the digit count and the text written to \<^verbatim>\<open>buf\<close> before the
  terminator, with the printer as the call leaves it.\<close>

definition lr_print :: "numtype \<Rightarrow> lr_printer \<Rightarrow> int \<Rightarrow> error + ((int \<times> string) \<times> lr_printer)" where
  "lr_print T P x =
     (case lr_print_to_out_iter T P x of
        Inl e \<Rightarrow> Inl e
      | Inr (out, P') \<Rightarrow> Inr ((int (length out), out), P'))"

text \<open>\<^verbatim>\<open>print( x, ostr )\<close> and \<^verbatim>\<open>print( x, file )\<close> print into the member \<^verbatim>\<open>_buffer\<close> of
  \<^verbatim>\<open>MAX_DIGITS\<close> cells, the second with a terminator.\<close>

definition lr_print_stream :: "numtype \<Rightarrow> lr_printer \<Rightarrow> int \<Rightarrow> error + (string \<times> lr_printer)" where
  "lr_print_stream T P x =
     (case lr_print_to_out_iter T P x of
        Inl e \<Rightarrow> Inl e
      | Inr (out, P') \<Rightarrow>
         if lr_MAX_DIGITS < length out then Inl (Out_Of_Bounds Buffer) else Inr (out, P'))"

definition lr_print_file :: "numtype \<Rightarrow> lr_printer \<Rightarrow> int \<Rightarrow> error + ((int \<times> string) \<times> lr_printer)" where
  "lr_print_file T P x =
     (case lr_print_to_out_iter T P x of
        Inl e \<Rightarrow> Inl e
      | Inr (out, P') \<Rightarrow>
         if lr_MAX_DIGITS \<le> length out then Inl (Out_Of_Bounds Buffer)
         else Inr ((int (length out), out), P'))"

definition lr_set_base :: "numtype \<Rightarrow> lr_printer \<Rightarrow> int \<Rightarrow> error + lr_printer" where
  "lr_set_base T P b = lr_init_helper_data T (P\<lparr>lr_base := b\<rparr>)"


definition lr_setup_default_alphabet :: "lr_printer \<Rightarrow> error + lr_printer" where
  "lr_setup_default_alphabet P =
     (if \<not> lr_base P \<le> 10 + 26 then Inl Assertion_Failed
      else case attach lr_MAX_BASE (lr_base P) decimal_digits (0, lr_alphabet P) of
             Inl e \<Rightarrow> Inl e
           | Inr La \<Rightarrow>
              (case attach lr_MAX_BASE (lr_base P) lower_letters La of
                 Inl e \<Rightarrow> Inl e
               | Inr (L, a) \<Rightarrow> Inr (P\<lparr>lr_alphabet := a\<rparr>)))"


section \<open>lr\_printer\_2\_digits\<close>

definition lr2_BASE_MAX :: nat where
  "lr2_BASE_MAX = 10 + 6 + 1"

definition lr2_DIGITS_MAX :: nat where
  "lr2_DIGITS_MAX = 64 + 5"

record lr_printer_2_digits =
  lr2_base :: int
  lr2_base_sqr :: int
  lr2_alphabet :: chars
  lr2_alphabet_sqr :: chars
  lr2_reached_max_power :: bool
  lr2_powers :: "int list"

definition lr2_append_helper_data :: "numtype \<Rightarrow> lr_printer_2_digits
    \<Rightarrow> error + (bool \<times> lr_printer_2_digits)" where
  "lr2_append_helper_data T P =
     (if lr2_powers P = [] then Inl (Out_Of_Bounds Powers)
      else case num_result T (last (lr2_powers P) * lr2_base P) of
          Inl e \<Rightarrow> Inl e
        | Inr new_power \<Rightarrow>
           (case c_div new_power (lr2_base P) of
              Inl e \<Rightarrow> Inl e
            | Inr q \<Rightarrow>
               if q \<noteq> last (lr2_powers P) then Inr (False, P)
               else if lr2_DIGITS_MAX \<le> length (lr2_powers P) then Inl (Out_Of_Bounds Powers)
               else Inr (True, P\<lparr>lr2_powers := lr2_powers P @ [new_power]\<rparr>)))"

fun lr2_init_loop :: "numtype \<Rightarrow> nat \<Rightarrow> lr_printer_2_digits \<Rightarrow> error + lr_printer_2_digits" where
  "lr2_init_loop T 0 P = Inr P"
| "lr2_init_loop T (Suc n) P =
     (case lr2_append_helper_data T P of
        Inl e \<Rightarrow> Inl e
      | Inr (ok, P') \<Rightarrow> lr2_init_loop T n P')"

definition lr2_init_helper_data :: "numtype \<Rightarrow> lr_printer_2_digits \<Rightarrow> error + lr_printer_2_digits" where
  "lr2_init_helper_data T P =
     lr2_init_loop T (DATA_INIT_LENGTH - 1) (P\<lparr>lr2_reached_max_power := False, lr2_powers := [1]\<rparr>)"

text \<open>\<^verbatim>\<open>_powers[ _powers_length - 2 ]\<close>; below two entries the index is negative.\<close>

definition lr2_last_but_one :: "lr_printer_2_digits \<Rightarrow> error + int" where
  "lr2_last_but_one P =
     (if length (lr2_powers P) < 2 then Inl (Out_Of_Bounds Powers)
      else Inr (lr2_powers P ! (length (lr2_powers P) - 2)))"

text \<open>The two \<^verbatim>\<open>return\<close>s for a number of the greatest or the next smaller digit count.\<close>

definition lr2_top_or_below :: "lr_printer_2_digits \<Rightarrow> int \<Rightarrow> int" where
  "lr2_top_or_below P num =
     (if last (lr2_powers P) \<le> num then int (length (lr2_powers P)) - 2
      else int (length (lr2_powers P)) - 3)"

text \<open>The loop \<^verbatim>\<open>while ( _powers[ _powers_length - 2 ] <= num )\<close> of
  \<^verbatim>\<open>get_max_power_ptr\<close>.\<close>

function lr2_grow :: "numtype \<Rightarrow> lr_printer_2_digits \<Rightarrow> int
    \<Rightarrow> error + (int option \<times> lr_printer_2_digits)" where
  "lr2_grow T P num =
     (case lr2_last_but_one P of
        Inl e \<Rightarrow> Inl e
      | Inr p \<Rightarrow>
         if p \<le> num
         then (case lr2_append_helper_data T P of
                 Inl e \<Rightarrow> Inl e
               | Inr (ok, P') \<Rightarrow>
                  if \<not> ok
                  then Inr (Some (lr2_top_or_below P' num), P'\<lparr>lr2_reached_max_power := True\<rparr>)
                  else lr2_grow T P' num)
         else Inr (None, P))"
  by pat_completeness auto
termination
  by (relation "measure (\<lambda>(T, P, num). lr2_DIGITS_MAX - length (lr2_powers P))")
     (auto simp: lr2_append_helper_data_def Let_def split: sum.splits if_splits)

text \<open>The loop \<^verbatim>\<open>while ( *power_ptr <= num ) power_ptr += 2;\<close>\<close>

function lr2_scan :: "lr_printer_2_digits \<Rightarrow> int \<Rightarrow> nat \<Rightarrow> error + nat" where
  "lr2_scan P num i =
     (if length (lr2_powers P) \<le> i then Inl (Uninitialized_Read Powers)
      else if lr2_powers P ! i \<le> num then lr2_scan P num (i + 2)
      else Inr i)"
  by pat_completeness auto
termination
  by (relation "measure (\<lambda>(P, num, i). length (lr2_powers P) - i)") auto

definition lr2_find_power :: "lr_printer_2_digits \<Rightarrow> int \<Rightarrow> error + (int \<times> lr_printer_2_digits)" where
  "lr2_find_power P num =
     (case lr2_scan P num 0 of
        Inl e \<Rightarrow> Inl e
      | Inr i \<Rightarrow>
         if i = 0 then Inl (Out_Of_Bounds Powers)
         else let j = (if lr2_powers P ! (i - 1) \<le> num then i else i - 1) in
           if \<not> lr2_powers P ! j > num then Inl Assertion_Failed
           else Inr (int j - 2, P))"

definition lr2_get_max_power_ptr :: "numtype \<Rightarrow> lr_printer_2_digits \<Rightarrow> int
    \<Rightarrow> error + (int \<times> lr_printer_2_digits)" where
  "lr2_get_max_power_ptr T P num =
     (if lr2_reached_max_power P
      then (case lr2_last_but_one P of
              Inl e \<Rightarrow> Inl e
            | Inr p \<Rightarrow>
               if p \<le> num then Inr (lr2_top_or_below P num, P)
               else lr2_find_power P num)
      else (case lr2_grow T P num of
              Inl e \<Rightarrow> Inl e
            | Inr (Some k, P') \<Rightarrow> Inr (k, P')
            | Inr (None, P') \<Rightarrow> lr2_find_power P' num))"

text \<open>The loop \<^verbatim>\<open>for ( ; power_ptr >= power_ptr_lim; power_ptr -= 2 )\<close> of
  \<^verbatim>\<open>print_to_out_iter\<close>, with \<^verbatim>\<open>power_ptr_lim = _powers + 1\<close>; it returns the index it
  stops at, what remains of the number, and the output.\<close>

function lr2_print_loop :: "numtype \<Rightarrow> lr_printer_2_digits \<Rightarrow> int \<Rightarrow> int \<Rightarrow> string
    \<Rightarrow> error + (int \<times> int \<times> string)" where
  "lr2_print_loop T P k num out =
     (if 1 \<le> k
      then (if int (length (lr2_powers P)) \<le> k then Inl (Uninitialized_Read Powers)
            else case c_div num (lr2_powers P ! nat k) of
              Inl e \<Rightarrow> Inl e
            | Inr q \<Rightarrow>
               (let digits_2 = to_short q in
                if \<not> 0 \<le> digits_2 then Inl Assertion_Failed
                else if \<not> digits_2 < lr2_base_sqr P then Inl Assertion_Failed
                else case read_char Alphabet_Sqr (lr2_BASE_MAX * lr2_BASE_MAX * 2) (lr2_alphabet_sqr P) (digits_2 * 2) of
                  Inl e \<Rightarrow> Inl e
                | Inr c0 \<Rightarrow>
                   (case read_char Alphabet_Sqr (lr2_BASE_MAX * lr2_BASE_MAX * 2) (lr2_alphabet_sqr P) (digits_2 * 2 + 1) of
                      Inl e \<Rightarrow> Inl e
                    | Inr c1 \<Rightarrow>
                       (case num_result T (digits_2 * (lr2_powers P ! nat k)) of
                          Inl e \<Rightarrow> Inl e
                        | Inr part \<Rightarrow>
                           (case num_result T (num - part) of
                              Inl e \<Rightarrow> Inl e
                            | Inr num' \<Rightarrow> lr2_print_loop T P (k - 2) num' (out @ [c0, c1]))))))
      else Inr (k, num, out))"
  by pat_completeness auto
termination
  by (relation "measure (\<lambda>(T, P, k, num, out). nat (k + 1))") auto

text \<open>The end of \<^verbatim>\<open>print_to_out_iter\<close>, after the loop: the last two digits or the last
  digit.\<close>

definition lr2_print_last :: "numtype \<Rightarrow> lr_printer_2_digits \<Rightarrow> int \<Rightarrow> int \<Rightarrow> string
    \<Rightarrow> error + string" where
  "lr2_print_last T P k num out =
     (if \<not> (k = 0 \<or> k = - 1) then Inl Assertion_Failed
      else if k = 0
      then (if \<not> 0 \<le> num then Inl Assertion_Failed
            else if \<not> num < lr2_base_sqr P then Inl Assertion_Failed
            else case num_result T (num * 2) of
              Inl e \<Rightarrow> Inl e
            | Inr i0 \<Rightarrow>
               (case read_char Alphabet_Sqr (lr2_BASE_MAX * lr2_BASE_MAX * 2) (lr2_alphabet_sqr P) i0 of
                  Inl e \<Rightarrow> Inl e
                | Inr c0 \<Rightarrow>
                   (case num_result T (num * 2) of
                      Inl e \<Rightarrow> Inl e
                    | Inr j0 \<Rightarrow>
                       (case num_result T (j0 + 1) of
                          Inl e \<Rightarrow> Inl e
                        | Inr i1 \<Rightarrow>
                           (case read_char Alphabet_Sqr (lr2_BASE_MAX * lr2_BASE_MAX * 2) (lr2_alphabet_sqr P) i1 of
                              Inl e \<Rightarrow> Inl e
                            | Inr c1 \<Rightarrow> Inr (out @ [c0, c1]))))))
      else (if \<not> 0 \<le> num then Inl Assertion_Failed
            else if \<not> num < lr2_base P then Inl Assertion_Failed
            else case read_char Alphabet lr2_BASE_MAX (lr2_alphabet P) num of
              Inl e \<Rightarrow> Inl e
            | Inr c \<Rightarrow> Inr (out @ [c])))"

definition lr2_print_to_out_iter :: "numtype \<Rightarrow> lr_printer_2_digits \<Rightarrow> int
    \<Rightarrow> error + (string \<times> lr_printer_2_digits)" where
  "lr2_print_to_out_iter T P num =
     (if num = 0
      then (case read_char Alphabet lr2_BASE_MAX (lr2_alphabet P) 0 of
              Inl e \<Rightarrow> Inl e
            | Inr c \<Rightarrow> Inr ([c], P))
      else (case lr2_get_max_power_ptr T P num of
              Inl e \<Rightarrow> Inl e
            | Inr (k, P') \<Rightarrow>
               (case lr2_print_loop T P' k num [] of
                  Inl e \<Rightarrow> Inl e
                | Inr (k', num', out) \<Rightarrow>
                   (case lr2_print_last T P' k' num' out of
                      Inl e \<Rightarrow> Inl e
                    | Inr out' \<Rightarrow> Inr (out', P')))))"

definition lr2_print :: "numtype \<Rightarrow> lr_printer_2_digits \<Rightarrow> int
    \<Rightarrow> error + ((int \<times> string) \<times> lr_printer_2_digits)" where
  "lr2_print T P x =
     (case lr2_print_to_out_iter T P x of
        Inl e \<Rightarrow> Inl e
      | Inr (out, P') \<Rightarrow> Inr ((int (length out), out), P'))"

definition lr2_print_stream :: "numtype \<Rightarrow> lr_printer_2_digits \<Rightarrow> int
    \<Rightarrow> error + (string \<times> lr_printer_2_digits)" where
  "lr2_print_stream T P x =
     (case lr2_print_to_out_iter T P x of
        Inl e \<Rightarrow> Inl e
      | Inr (out, P') \<Rightarrow>
         if lr2_DIGITS_MAX < length out then Inl (Out_Of_Bounds Buffer) else Inr (out, P'))"

definition lr2_print_file :: "numtype \<Rightarrow> lr_printer_2_digits \<Rightarrow> int
    \<Rightarrow> error + ((int \<times> string) \<times> lr_printer_2_digits)" where
  "lr2_print_file T P x =
     (case lr2_print_to_out_iter T P x of
        Inl e \<Rightarrow> Inl e
      | Inr (out, P') \<Rightarrow>
         if lr2_DIGITS_MAX \<le> length out then Inl (Out_Of_Bounds Buffer)
         else Inr ((int (length out), out), P'))"

definition lr2_calculate_alphabet_sqr :: "lr_printer_2_digits \<Rightarrow> error + lr_printer_2_digits" where
  "lr2_calculate_alphabet_sqr P =
     (case calculate_alphabet_sqr lr2_BASE_MAX (lr2_base P) (lr2_alphabet P) (lr2_alphabet_sqr P) of
        Inl e \<Rightarrow> Inl e
      | Inr s \<Rightarrow> Inr (P\<lparr>lr2_alphabet_sqr := s\<rparr>))"

definition lr2_set_base :: "numtype \<Rightarrow> lr_printer_2_digits \<Rightarrow> int \<Rightarrow> error + lr_printer_2_digits" where
  "lr2_set_base T P b =
     (case lr2_calculate_alphabet_sqr (P\<lparr>lr2_base := b, lr2_base_sqr := to_short (b * b)\<rparr>) of
        Inl e \<Rightarrow> Inl e
      | Inr P' \<Rightarrow> lr2_init_helper_data T P')"


definition lr2_setup_default_alphabet :: "lr_printer_2_digits \<Rightarrow> error + lr_printer_2_digits" where
  "lr2_setup_default_alphabet P =
     (if \<not> lr2_base P \<le> 10 + 6 then Inl Assertion_Failed
      else case attach lr2_BASE_MAX (lr2_base P) decimal_digits (0, lr2_alphabet P) of
             Inl e \<Rightarrow> Inl e
           | Inr La \<Rightarrow>
              (case attach lr2_BASE_MAX (lr2_base P) lower_letters La of
                 Inl e \<Rightarrow> Inl e
               | Inr (L, a) \<Rightarrow>
                  if L = lr2_base P then lr2_calculate_alphabet_sqr (P\<lparr>lr2_alphabet := a\<rparr>)
                  else Inl Assertion_Failed))"

text \<open>The constructor \<^verbatim>\<open>lr_printer_2_digits( short base_ = 10 )\<close>:
  \<^verbatim>\<open>set_base( base_ ); setup_default_alphabet();\<close>\<close>

definition lr2_new :: "numtype \<Rightarrow> int \<Rightarrow> error + lr_printer_2_digits" where
  "lr2_new T b =
     (case lr2_set_base T \<lparr>lr2_base = - 1, lr2_base_sqr = 0,
                            lr2_alphabet = Map.empty, lr2_alphabet_sqr = Map.empty,
                            lr2_reached_max_power = False, lr2_powers = []\<rparr> b of
        Inl e \<Rightarrow> Inl e
      | Inr P \<Rightarrow> lr2_setup_default_alphabet P)"

function digits_of :: "int \<Rightarrow> int \<Rightarrow> int list" where
  "digits_of b n = (if b < 2 \<or> n < b then [n] else digits_of b (n div b) @ [n mod b])"
  by pat_completeness auto

termination
proof (relation "measure (\<lambda>(b, n). nat n)")
  fix b n :: int
  assume "\<not> (b < 2 \<or> n < b)"
  then have "2 \<le> b" "b \<le> n" by auto
  then have "n div b < n" by (simp add: int_div_less_self)
  with \<open>2 \<le> b\<close> \<open>b \<le> n\<close> show "((b, n div b), (b, n)) \<in> measure (\<lambda>(b, n). nat n)"
    by simp
qed simp

fun fixed_digits :: "int \<Rightarrow> nat \<Rightarrow> int \<Rightarrow> int list" where
  "fixed_digits b 0 n = []"
| "fixed_digits b (Suc k) n = (n div b ^ k) # fixed_digits b k (n mod b ^ k)"


definition supported_numtype :: "numtype \<Rightarrow> bool" where
  "supported_numtype T \<longleftrightarrow> 32 \<le> bits T \<and> bits T \<le> 64"

definition alphabet_ok :: "nat \<Rightarrow> int \<Rightarrow> chars \<Rightarrow> bool" where
  "alphabet_ok cap b a \<longleftrightarrow> b \<le> int cap \<and> (\<forall>d<nat b. a d \<noteq> None)"

definition text_of :: "chars \<Rightarrow> int list \<Rightarrow> string" where
  "text_of a ds = map (\<lambda>d. the (a (nat d))) ds"

definition alphabet_fault :: "error \<Rightarrow> bool" where
  "alphabet_fault e \<longleftrightarrow>
     e = Out_Of_Bounds Alphabet \<or> e = Uninitialized_Read Alphabet \<or>
     e = Out_Of_Bounds Alphabet_Sqr \<or> e = Uninitialized_Read Alphabet_Sqr"

definition outcome :: "bool \<Rightarrow> 'a \<Rightarrow> error + 'a \<Rightarrow> bool" where
  "outcome ok expected res \<longleftrightarrow>
     (case res of Inl e \<Rightarrow> alphabet_fault e \<and> \<not> ok | Inr r \<Rightarrow> r = expected)"

definition sqr_ok :: "int \<Rightarrow> chars \<Rightarrow> chars \<Rightarrow> bool" where
  "sqr_ok b a s \<longleftrightarrow>
     (\<forall>i<nat b. \<forall>j<nat b. s (2 * (i * nat b + j)) = a i \<and> s (2 * (i * nat b + j) + 1) = a j)"

definition mp2_ok :: "modulo_printer_2_digits \<Rightarrow> bool" where
  "mp2_ok P \<longleftrightarrow> 2 \<le> mp2_base P \<and> mp2_base P \<le> int mp2_BASE_MAX \<and>
     mp2_base_sqr P = mp2_base P * mp2_base P \<and>
     sqr_ok (mp2_base P) (mp2_alphabet P) (mp2_alphabet_sqr P)"

definition powers_table :: "int \<Rightarrow> nat \<Rightarrow> int list" where
  "powers_table b n = map (\<lambda>k. b ^ k) [0..<n]"

definition cache_ok :: "numtype \<Rightarrow> int \<Rightarrow> bool \<Rightarrow> int list \<Rightarrow> bool" where
  "cache_ok T b reached ps \<longleftrightarrow>
     ps \<noteq> [] \<and> ps = powers_table b (length ps) \<and> b ^ (length ps - 1) \<le> max_val T \<and>
     (reached \<longrightarrow> max_val T < b ^ length ps \<and> \<not> is_signed T)"

definition lr_ok :: "numtype \<Rightarrow> lr_printer \<Rightarrow> bool" where
  "lr_ok T P \<longleftrightarrow> 2 \<le> lr_base P \<and> lr_base P \<le> 32767 \<and>
     cache_ok T (lr_base P) (lr_reached_max_power P) (lr_powers P)"

definition overflows :: "numtype \<Rightarrow> int \<Rightarrow> nat \<Rightarrow> bool" where
  "overflows T b k \<longleftrightarrow> is_signed T \<and> max_val T < b ^ k"

definition lr2_ok :: "numtype \<Rightarrow> lr_printer_2_digits \<Rightarrow> bool" where
  "lr2_ok T P \<longleftrightarrow> 2 \<le> lr2_base P \<and> lr2_base P \<le> int lr2_BASE_MAX \<and>
     lr2_base_sqr P = lr2_base P * lr2_base P \<and>
     sqr_ok (lr2_base P) (lr2_alphabet P) (lr2_alphabet_sqr P) \<and>
     cache_ok T (lr2_base P) (lr2_reached_max_power P) (lr2_powers P) \<and>
     2 \<le> length (lr2_powers P)"

definition lr2_same :: "lr_printer_2_digits \<Rightarrow> lr_printer_2_digits \<Rightarrow> bool" where
  "lr2_same P' P \<longleftrightarrow> lr2_base P' = lr2_base P \<and> lr2_base_sqr P' = lr2_base_sqr P \<and>
     lr2_alphabet P' = lr2_alphabet P \<and> lr2_alphabet_sqr P' = lr2_alphabet_sqr P"

definition default_alphabet :: string where
  "default_alphabet = decimal_digits @ lower_letters"

definition default_chars :: "int \<Rightarrow> chars \<Rightarrow> chars" where
  "default_chars b a = (\<lambda>k. if int k < b then Some (default_alphabet ! k) else a k)"





definition default_text :: "int list \<Rightarrow> string" where
  "default_text ds = map (\<lambda>d. default_alphabet ! nat d) ds"





text \<open>Sequencing of two steps that may fail.\<close>

definition then_do :: "error + 'a \<Rightarrow> ('a \<Rightarrow> error + 'b) \<Rightarrow> error + 'b" where
  "then_do m f = (case m of Inl e \<Rightarrow> Inl e | Inr x \<Rightarrow> f x)"

text \<open>\<open>has_default_alphabet b a\<close>: the alphabet array \<open>a\<close> holds the first \<open>b\<close> characters of
  \<^verbatim>\<open>0-9a-z\<close> at the positions \<open>0 .. b - 1\<close>.\<close>

definition has_default_alphabet :: "int \<Rightarrow> chars \<Rightarrow> bool" where
  "has_default_alphabet b a \<longleftrightarrow> map a [0..<nat b] = map Some (take (nat b) default_alphabet)"

declare digits_of.simps [simp del]

declare mp_loop.simps [simp del] mp2_loop.simps [simp del] lr_grow.simps [simp del] lr_scan.simps [simp del] lr_print_loop.simps [simp del] lr2_grow.simps [simp del] lr2_scan.simps [simp del] lr2_print_loop.simps [simp del]

lemma int_div_less_iff: "0 < q \<Longrightarrow> (m div q < n) = (m < n * q)" for m n q :: int
proof
  assume q: "0 < q" and "m div q < n"
  then have "m div q + 1 \<le> n" by simp
  then have "q * (m div q + 1) \<le> q * n" using q by (intro mult_left_mono) simp_all
  moreover have "m < q * (m div q + 1)"
  proof -
    have "q * (m div q) + m mod q = m" by simp
    moreover have "m mod q < q" using q by simp
    moreover have "q * (m div q + 1) = q * (m div q) + q" by (simp add: algebra_simps)
    ultimately show ?thesis by linarith
  qed
  ultimately show "m < n * q" by (simp add: mult.commute)
next
  assume q: "0 < q" and lt: "m < n * q"
  show "m div q < n"
  proof (rule ccontr)
    assume "\<not> m div q < n"
    then have "n \<le> m div q" by simp
    then have "q * n \<le> q * (m div q)" using q by (intro mult_left_mono) simp_all
    moreover have "q * (m div q) \<le> m"
    proof -
      have "q * (m div q) + m mod q = m" by simp
      moreover have "0 \<le> m mod q" using q by simp
      ultimately show ?thesis by linarith
    qed
    ultimately show False using lt by (simp add: mult.commute)
  qed
qed

lemma int_le_div_iff: "0 < q \<Longrightarrow> (n \<le> m div q) = (n * q \<le> m)" for m n q :: int
  using int_div_less_iff [of q m n] by auto

lemma sdiv_nonneg: "0 \<le> a \<Longrightarrow> 0 \<le> b \<Longrightarrow> a sdiv b = a div b" for a b :: int
  by (cases "a = 0"; cases "b = 0") (simp_all add: signed_divide_int_def)

lemma smod_nonneg: "0 \<le> a \<Longrightarrow> 0 \<le> b \<Longrightarrow> a smod b = a mod b" for a b :: int
  by (rule smod_mod_positive)


lemma mod_power_div_base: "0 < (b::int) \<Longrightarrow> (n mod b ^ Suc k) div b = (n div b) mod b ^ k"
proof -
  assume b: "0 < b"
  have "n mod (b * b ^ k) = b * (n div b mod b ^ k) + n mod b"
    using b by (simp add: zmod_zmult2_eq)
  then show ?thesis using b by simp
qed

lemma fixed_digits_snoc:
  "0 < b \<Longrightarrow> 0 \<le> n \<Longrightarrow> n < b ^ Suc k \<Longrightarrow>
   fixed_digits b (Suc k) n = fixed_digits b k (n div b) @ [n mod b]"
proof (induction k arbitrary: n)
  case 0
  then show ?case by simp
next
  case (Suc k)
  let ?m = "n mod b ^ Suc k"
  have m: "0 \<le> ?m" "?m < b ^ Suc k" using Suc.prems by simp_all
  have IH: "fixed_digits b (Suc k) ?m = fixed_digits b k (?m div b) @ [?m mod b]"
    using Suc.IH [OF Suc.prems(1) m] .
  have e1: "?m div b = (n div b) mod b ^ k"
    using Suc.prems(1) by (rule mod_power_div_base)
  have e2: "(n div b) div b ^ k = n div b ^ Suc k"
    using Suc.prems(1) by (simp add: zdiv_zmult2_eq)
  have e3: "?m mod b = n mod b"
    by (simp add: mod_mod_cancel)
  have "fixed_digits b (Suc (Suc k)) n = (n div b ^ Suc k) # fixed_digits b (Suc k) ?m"
    by simp
  also have "\<dots> = (n div b ^ Suc k) # fixed_digits b k ((n div b) mod b ^ k) @ [n mod b]"
    using IH e1 e3 by simp
  also have "\<dots> = fixed_digits b (Suc k) (n div b) @ [n mod b]"
    using e2 by simp
  finally show ?case .
qed

lemma digits_of_fixed:
  "2 \<le> b \<Longrightarrow> b ^ k \<le> n \<Longrightarrow> n < b ^ Suc k \<Longrightarrow> digits_of b n = fixed_digits b (Suc k) n"
proof (induction k arbitrary: n)
  case 0
  then show ?case by (simp add: digits_of.simps [of b n])
next
  case (Suc k)
  have b: "0 < b" using Suc.prems by simp
  have n: "b \<le> n" 
  proof -
    have "b ^ 1 \<le> b ^ Suc k" using Suc.prems(1) by (intro power_increasing) simp_all
    then show ?thesis using Suc.prems(2) by simp
  qed
  have lo: "b ^ k \<le> n div b"
  proof -
    have "b ^ k * b \<le> n" using Suc.prems(2) by (simp add: mult.commute)
    then show ?thesis using b by (simp add: int_le_div_iff)
  qed
  have hi: "n div b < b ^ Suc k"
  proof -
    have "n < b ^ Suc k * b" using Suc.prems(3) by (simp add: mult.commute)
    then show ?thesis using b by (simp add: int_div_less_iff)
  qed
  have "digits_of b n = digits_of b (n div b) @ [n mod b]"
    using n Suc.prems(1) by (simp add: digits_of.simps [of b n])
  also have "\<dots> = fixed_digits b (Suc k) (n div b) @ [n mod b]"
    using Suc.IH [OF Suc.prems(1) lo hi] by simp
  also have "\<dots> = fixed_digits b (Suc (Suc k)) n"
    using fixed_digits_snoc [of b n "Suc k"] b Suc.prems n by simp
  finally show ?case .
qed

lemma wrap_id: "1 \<le> bits T \<Longrightarrow> 0 \<le> x \<Longrightarrow> x \<le> max_val T \<Longrightarrow> wrap T x = x"
proof -
  assume bt: "1 \<le> bits T" and x: "0 \<le> x" "x \<le> max_val T"
  have p: "(2::int) ^ bits T = 2 * 2 ^ (bits T - 1)"
    using bt by (cases "bits T") simp_all
  show ?thesis
  proof (cases "is_signed T")
    case True
    with x have "x + 2 ^ (bits T - 1) < 2 ^ bits T" by (simp add: max_val_def p)
    moreover have "0 \<le> x + 2 ^ (bits T - 1)" using x by simp
    ultimately show ?thesis using True by (simp add: wrap_def)
  next
    case False
    with x show ?thesis by (simp add: wrap_def max_val_def)
  qed
qed

lemma to_short_id: "0 \<le> x \<Longrightarrow> x \<le> 32767 \<Longrightarrow> to_short x = x"
  unfolding to_short_def by (rule wrap_id) (simp_all add: short_t_def max_val_def)

lemma wrap_range: "1 \<le> bits T \<Longrightarrow> wrap T x \<le> max_val T"
proof -
  assume bt: "1 \<le> bits T"
  have p: "(2::int) ^ bits T = 2 * 2 ^ (bits T - 1)"
    using bt by (cases "bits T") simp_all
  have "(x + 2 ^ (bits T - 1)) mod 2 ^ bits T < 2 ^ bits T" by simp
  moreover have "x mod 2 ^ bits T < 2 ^ bits T" by simp
  ultimately show ?thesis by (auto simp: wrap_def max_val_def p)
qed

text \<open>The divide-back test of append_helper_data is exact.\<close>

lemma overflow_check:
  assumes bt: "1 \<le> bits T" and a: "1 \<le> a" and b: "1 \<le> b"
  shows "(wrap T (a * b) sdiv b = a) = (a * b \<le> max_val T)"
proof (cases "a * b \<le> max_val T")
  case True
  have "0 \<le> a * b" using a b by simp
  then have "wrap T (a * b) = a * b" using True bt by (simp add: wrap_id)
  then show ?thesis using True a b by (simp add: sdiv_nonneg)
next
  case False
  let ?w = "wrap T (a * b)"
  have w: "?w < a * b" using wrap_range [OF bt, of "a * b"] False by simp
  have "?w sdiv b \<noteq> a"
  proof (cases "0 \<le> ?w")
    case True
    then have "?w sdiv b = ?w div b" using b by (simp add: sdiv_nonneg)
    moreover have "?w div b < a" using w b by (simp add: int_div_less_iff)
    ultimately show ?thesis by simp
  next
    case neg: False
    then have "?w sdiv b \<le> 0" using b
      by (simp add: signed_divide_int_def sgn_if pos_imp_zdiv_nonneg_iff)
    then show ?thesis using a by simp
  qed
  then show ?thesis using False by simp
qed

lemma max_val_lower: "supported_numtype T \<Longrightarrow> 2147483647 \<le> max_val T"
proof -
  assume s: "supported_numtype T"
  then have "31 \<le> bits T - 1" "31 \<le> bits T" unfolding supported_numtype_def by arith+
  then have "(2::int) ^ 31 \<le> 2 ^ (bits T - 1)" "(2::int) ^ 31 \<le> 2 ^ bits T"
    by (simp_all only: power_increasing_iff [of 2])
  then show ?thesis by (simp add: max_val_def)
qed

lemma max_val_upper: "supported_numtype T \<Longrightarrow> max_val T < 2 ^ 64"
proof -
  assume s: "supported_numtype T"
  then have "bits T - 1 \<le> 64" "bits T \<le> 64" unfolding supported_numtype_def by arith+
  then have "(2::int) ^ (bits T - 1) \<le> 2 ^ 64" "(2::int) ^ bits T \<le> 2 ^ 64"
    by (simp_all only: power_increasing_iff [of 2])
  then show ?thesis by (simp add: max_val_def)
qed

lemma supported_bits: "supported_numtype T \<Longrightarrow> 1 \<le> bits T"
  by (simp add: supported_numtype_def)

lemma num_result_id:
  assumes "1 \<le> bits T" "0 \<le> x" "x \<le> max_val T"
  shows "num_result T x = Inr x"
proof (cases "is_signed T")
  case True
  have "- (2 ^ (bits T - 1)) \<le> (0::int)" by simp
  then have "- (2 ^ (bits T - 1)) \<le> x" using assms(2) by linarith
  then show ?thesis using True assms(3) by (simp add: num_result_def)
next
  case False
  then show ?thesis using wrap_id [OF assms] by (simp add: num_result_def)
qed

lemma num_result_signed_over:
  assumes "is_signed T" "max_val T < x"
  shows "num_result T x = Inl Signed_Overflow"
  using assms by (simp add: num_result_def)

lemma num_result_unsigned:
  assumes "\<not> is_signed T"
  shows "num_result T x = Inr (wrap T x)"
  using assms by (simp add: num_result_def)

lemma outcome_Inr [simp]: "outcome ok x (Inr y) = (y = x)"
  by (simp add: outcome_def)

lemma outcome_Inl [simp]: "outcome ok x (Inl e) = (alphabet_fault e \<and> \<not> ok)"
  by (simp add: outcome_def)

lemma outcome_ok: "outcome ok x res \<Longrightarrow> ok \<Longrightarrow> res = Inr x"
  by (cases res) simp_all

lemma outcome_not_fault: "outcome ok x res \<Longrightarrow> res = Inl e \<Longrightarrow> alphabet_fault e"
  by simp

lemma read_char_ok:
  "alphabet_ok cap b a \<Longrightarrow> 0 \<le> d \<Longrightarrow> d < b \<Longrightarrow> read_char arr cap a d = Inr (the (a (nat d)))"
  by (auto simp: alphabet_ok_def read_char_def split: option.splits)

lemma read_char_cases:
  assumes "0 \<le> d" "d < b" "arr = Alphabet \<or> arr = Alphabet_Sqr"
  shows "outcome (alphabet_ok cap b a) (the (a (nat d))) (read_char arr cap a d)"
proof -
  have d: "nat d < nat b" using assms by simp
  have "a (nat d) \<noteq> None \<and> d < int cap" if "alphabet_ok cap b a"
    using that d assms unfolding alphabet_ok_def by auto
  then show ?thesis using assms
    by (auto simp: read_char_def alphabet_fault_def split: option.splits)
qed

lemma digits_of_small: "n < b \<Longrightarrow> digits_of b n = [n]"
  by (simp add: digits_of.simps [of b n])

lemma digits_of_step:
  "2 \<le> b \<Longrightarrow> b \<le> n \<Longrightarrow> digits_of b n = digits_of b (n div b) @ [n mod b]"
  by (simp add: digits_of.simps [of b n])

lemma digits_of_nonempty: "digits_of b n \<noteq> []"
  by (simp add: digits_of.simps [of b n])

lemma length_digits_of:
  "2 \<le> b \<Longrightarrow> n < b ^ k \<Longrightarrow> 1 \<le> k \<Longrightarrow> length (digits_of b n) \<le> k"
proof (induction b n arbitrary: k rule: digits_of.induct)
  case (1 b n)
  show ?case
  proof (cases "n < b")
    case True
    then show ?thesis using 1 by (simp add: digits_of_small)
  next
    case False
    obtain j where k: "k = Suc j" using 1 by (cases k) simp_all
    have "j \<noteq> 0" using False 1 k by (cases j) simp_all
    then have j: "1 \<le> j" by simp
    have "n < b ^ j * b" using 1 k by (simp add: mult.commute)
    then have "n div b < b ^ j" using 1 by (simp add: int_div_less_iff)
    then have "length (digits_of b (n div b)) \<le> j"
      using 1 False j by simp
    then show ?thesis using False 1 k by (simp add: digits_of_step)
  qed
qed

lemma length_digits_of_64:
  assumes "2 \<le> b" "n < 2 ^ 64"
  shows "length (digits_of b n) \<le> 64"
proof -
  have "(2::int) ^ 64 \<le> b ^ 64" using assms(1) by (intro power_mono) simp_all
  then have "n < b ^ 64" using assms(2) by linarith
  then show ?thesis using assms(1) by (intro length_digits_of) simp_all
qed

lemma mp_loop_correct:
  "mp_base P = b \<Longrightarrow> 2 \<le> b \<Longrightarrow> 0 < x \<Longrightarrow> int (length (digits_of b x)) \<le> ptr \<Longrightarrow>
   outcome (alphabet_ok mp_BASE_MAX b (mp_alphabet P))
     (ptr - int (length (digits_of b x)), text_of (mp_alphabet P) (digits_of b x) @ out)
     (mp_loop P x (ptr, out))"
proof (induction b x arbitrary: ptr out rule: digits_of.induct)
  case (1 b n)
  let ?c = "the (mp_alphabet P (nat (n mod b)))"
  have md: "c_mod n b = Inr (n mod b)" "c_div n b = Inr (n div b)"
    using 1 by (simp_all add: c_mod_def c_div_def sdiv_nonneg smod_nonneg)
  have rd: "outcome (alphabet_ok mp_BASE_MAX b (mp_alphabet P)) ?c
      (read_char Alphabet mp_BASE_MAX (mp_alphabet P) (n mod b))"
    using 1 by (intro read_char_cases) simp_all
  show ?case
  proof (cases "read_char Alphabet mp_BASE_MAX (mp_alphabet P) (n mod b)")
    case (Inl e)
    then show ?thesis using rd md 1 by (simp add: mp_loop.simps [of P n])
  next
    case (Inr c)
    then have c: "c = ?c" using rd by simp
    show ?thesis
    proof (cases "n < b")
      case True
      then have "n div b = 0" using 1 by simp
      then show ?thesis using True 1 md Inr c
        by (simp add: mp_loop.simps [of P n] digits_of_small text_of_def)
    next
      case False
      have pos: "0 < n div b" using False 1 by (simp add: pos_imp_zdiv_pos_iff)
      have len: "length (digits_of b n) = Suc (length (digits_of b (n div b)))"
        using False 1 by (simp add: digits_of_step)
      have e: "ptr - 1 - int (length (digits_of b (n div b))) = ptr - int (length (digits_of b n))"
        using len by simp
      have t: "text_of (mp_alphabet P) (digits_of b (n div b)) @ ?c # out =
          text_of (mp_alphabet P) (digits_of b n) @ out"
        using False 1 by (simp add: digits_of_step text_of_def)
      have "outcome (alphabet_ok mp_BASE_MAX b (mp_alphabet P))
          (ptr - 1 - int (length (digits_of b (n div b))),
           text_of (mp_alphabet P) (digits_of b (n div b)) @ ?c # out)
          (mp_loop P (n div b) (ptr - 1, ?c # out))"
        using False 1 pos len by (intro "1.IH") simp_all
      then have "outcome (alphabet_ok mp_BASE_MAX b (mp_alphabet P))
          (ptr - int (length (digits_of b n)), text_of (mp_alphabet P) (digits_of b n) @ out)
          (mp_loop P (n div b) (ptr - 1, ?c # out))"
        by (simp only: e t)
      moreover have "mp_loop P n (ptr, out) = mp_loop P (n div b) (ptr - 1, ?c # out)"
        using "1.prems" md Inr c pos len by (simp add: mp_loop.simps [of P n])
      ultimately show ?thesis by simp
    qed
  qed
qed

lemma mp_print_correct:
  assumes "2 \<le> mp_base P" "0 \<le> x" "x < 2 ^ 64"
  shows "outcome (alphabet_ok mp_BASE_MAX (mp_base P) (mp_alphabet P))
           (int (length (digits_of (mp_base P) x)), text_of (mp_alphabet P) (digits_of (mp_base P) x))
           (mp_print P x)"
proof (cases "x = 0")
  case True
  have "outcome (alphabet_ok mp_BASE_MAX (mp_base P) (mp_alphabet P)) (the (mp_alphabet P (nat 0)))
      (read_char Alphabet mp_BASE_MAX (mp_alphabet P) 0)"
    using assms by (intro read_char_cases) simp_all
  then show ?thesis using True assms
    by (cases "read_char Alphabet mp_BASE_MAX (mp_alphabet P) 0")
       (simp_all add: mp_print_def mp_print_to_buffer_def mp_DIGITS_MAX_def digits_of_small text_of_def)
next
  case False
  have "length (digits_of (mp_base P) x) \<le> 64" using assms by (intro length_digits_of_64)
  then have "int (length (digits_of (mp_base P) x)) \<le> int mp_DIGITS_MAX - 1"
    by (simp add: mp_DIGITS_MAX_def)
  then have "outcome (alphabet_ok mp_BASE_MAX (mp_base P) (mp_alphabet P))
     (int mp_DIGITS_MAX - 1 - int (length (digits_of (mp_base P) x)),
          text_of (mp_alphabet P) (digits_of (mp_base P) x) @ [])
     (mp_loop P x (int mp_DIGITS_MAX - 1, []))"
    using assms False by (intro mp_loop_correct) simp_all
  then show ?thesis using False
    by (cases "mp_loop P x (int mp_DIGITS_MAX - 1, [])")
       (auto simp add: mp_print_def mp_print_to_buffer_def Let_def)
qed

lemma sqr_inner_correct:
  "i < cap \<Longrightarrow> \<forall>j\<in>set js. j < cap \<Longrightarrow> L + 2 * length js \<le> 2 * cap * cap \<Longrightarrow>
   \<exists>s'. sqr_inner cap a i js (L, s) = Inr (L + 2 * length js, s') \<and>
        (\<forall>k<L. s' k = s k) \<and>
        (\<forall>n<length js. s' (L + 2 * n) = a i \<and> s' (L + 2 * n + 1) = a (js ! n))"
proof (induction js arbitrary: L s)
  case Nil
  then show ?case by simp
next
  case (Cons j js)
  let ?s2 = "s(L := a i, L + 1 := a j)"
  have "\<exists>s'. sqr_inner cap a i js (L + 2, ?s2) = Inr (L + 2 + 2 * length js, s') \<and>
        (\<forall>k<L + 2. s' k = ?s2 k) \<and>
        (\<forall>n<length js. s' (L + 2 + 2 * n) = a i \<and> s' (L + 2 + 2 * n + 1) = a (js ! n))"
    using Cons.prems by (intro Cons.IH) simp_all
  then obtain s' where s': "sqr_inner cap a i js (L + 2, ?s2) = Inr (L + 2 + 2 * length js, s')"
    and keep: "\<forall>k<L + 2. s' k = ?s2 k"
    and new: "\<forall>n<length js. s' (L + 2 + 2 * n) = a i \<and> s' (L + 2 + 2 * n + 1) = a (js ! n)"
    by blast
  have run: "sqr_inner cap a i (j # js) (L, s) = Inr (L + 2 * length (j # js), s')"
    using Cons.prems s' by simp
  have old: "\<forall>k<L. s' k = s k" using keep by simp
  have cells: "s' (L + 2 * n) = a i \<and> s' (L + 2 * n + 1) = a ((j # js) ! n)"
    if "n < length (j # js)" for n
  proof (cases n)
    case 0
    have "s' L = ?s2 L" "s' (L + 1) = ?s2 (L + 1)" using keep by simp_all
    then show ?thesis using 0 by simp
  next
    case (Suc m)
    then have "m < length js" using that by simp
    then show ?thesis using new Suc by (simp add: add.assoc)
  qed
  show ?case using run old cells by blast
qed

lemma sqr_outer_correct:
  "\<forall>i\<in>set is. i < cap \<Longrightarrow> \<forall>j\<in>set js. j < cap \<Longrightarrow>
   L + 2 * (length is * length js) \<le> 2 * cap * cap \<Longrightarrow>
   \<exists>s'. sqr_outer cap a is js (L, s) = Inr (L + 2 * (length is * length js), s') \<and>
        (\<forall>k<L. s' k = s k) \<and>
        (\<forall>r<length is. \<forall>n<length js.
            s' (L + 2 * (r * length js + n)) = a (is ! r) \<and>
            s' (L + 2 * (r * length js + n) + 1) = a (js ! n))"
proof (induction "is" arbitrary: L s)
  case Nil
  then show ?case by simp
next
  case (Cons i "is")
  let ?m = "length js"
  have "\<exists>s1. sqr_inner cap a i js (L, s) = Inr (L + 2 * ?m, s1) \<and>
        (\<forall>k<L. s1 k = s k) \<and>
        (\<forall>n<?m. s1 (L + 2 * n) = a i \<and> s1 (L + 2 * n + 1) = a (js ! n))"
    using Cons.prems by (intro sqr_inner_correct) simp_all
  then obtain s1 where s1: "sqr_inner cap a i js (L, s) = Inr (L + 2 * ?m, s1)"
    and keep1: "\<forall>k<L. s1 k = s k"
    and row: "\<forall>n<?m. s1 (L + 2 * n) = a i \<and> s1 (L + 2 * n + 1) = a (js ! n)"
    by blast
  have "\<exists>s'. sqr_outer cap a is js (L + 2 * ?m, s1) = Inr (L + 2 * ?m + 2 * (length is * ?m), s') \<and>
        (\<forall>k<L + 2 * ?m. s' k = s1 k) \<and>
        (\<forall>r<length is. \<forall>n<?m.
            s' (L + 2 * ?m + 2 * (r * ?m + n)) = a (is ! r) \<and>
            s' (L + 2 * ?m + 2 * (r * ?m + n) + 1) = a (js ! n))"
    using Cons.prems by (intro Cons.IH) (simp_all add: algebra_simps)
  then obtain s' where s': "sqr_outer cap a is js (L + 2 * ?m, s1) = Inr (L + 2 * ?m + 2 * (length is * ?m), s')"
    and keep: "\<forall>k<L + 2 * ?m. s' k = s1 k"
    and rows: "\<forall>r<length is. \<forall>n<?m.
            s' (L + 2 * ?m + 2 * (r * ?m + n)) = a (is ! r) \<and>
            s' (L + 2 * ?m + 2 * (r * ?m + n) + 1) = a (js ! n)"
    by blast
  have run: "sqr_outer cap a (i # is) js (L, s) = Inr (L + 2 * (length (i # is) * ?m), s')"
    using s1 s' by (simp add: algebra_simps)
  have old: "\<forall>k<L. s' k = s k" using keep keep1 by simp
  have cells: "s' (L + 2 * (r * ?m + n)) = a ((i # is) ! r) \<and>
               s' (L + 2 * (r * ?m + n) + 1) = a (js ! n)"
    if "r < length (i # is)" "n < ?m" for r n
  proof (cases r)
    case 0
    have "s' (L + 2 * n) = s1 (L + 2 * n)" "s' (L + 2 * n + 1) = s1 (L + 2 * n + 1)"
      using keep that by simp_all
    then show ?thesis using 0 row that by simp
  next
    case (Suc q)
    then have "q < length is" using that by simp
    then have A: "s' (L + 2 * ?m + 2 * (q * ?m + n)) = a (is ! q) \<and>
            s' (L + 2 * ?m + 2 * (q * ?m + n) + 1) = a (js ! n)"
      using rows that by simp
    have eq: "L + 2 * ?m + 2 * (q * ?m + n) = L + 2 * (r * ?m + n)"
      using Suc by (simp add: algebra_simps)
    have "(i # is) ! r = is ! q" using Suc by simp
    then show ?thesis using A unfolding eq by simp
  qed
  show ?case using run old cells by blast
qed

lemma calculate_alphabet_sqr_correct:
  assumes "0 \<le> b" "b \<le> int cap"
  shows "\<exists>s'. calculate_alphabet_sqr cap b a s = Inr s' \<and> sqr_ok b a s'"
proof -
  let ?n = "nat b"
  have n: "?n \<le> cap" using assms by simp
  have "?n * ?n \<le> cap * cap" using n by (intro mult_le_mono)
  then have bound: "0 + 2 * (length [0..<?n] * length [0..<?n]) \<le> 2 * cap * cap" by simp
  have "\<exists>s'. sqr_outer cap a [0..<?n] [0..<?n] (0, s) =
          Inr (0 + 2 * (length [0..<?n] * length [0..<?n]), s') \<and>
        (\<forall>k<0. s' k = s k) \<and>
        (\<forall>r<length [0..<?n]. \<forall>m<length [0..<?n].
            s' (0 + 2 * (r * length [0..<?n] + m)) = a ([0..<?n] ! r) \<and>
            s' (0 + 2 * (r * length [0..<?n] + m) + 1) = a ([0..<?n] ! m))"
    using n bound by (intro sqr_outer_correct) simp_all
  then obtain s' where run: "sqr_outer cap a [0..<?n] [0..<?n] (0, s) = Inr (2 * (?n * ?n), s')"
    and cells: "\<forall>r<?n. \<forall>m<?n. s' (2 * (r * ?n + m)) = a r \<and> s' (2 * (r * ?n + m) + 1) = a m"
    by auto
  have "int (2 * (?n * ?n)) = 2 * b * b" using assms by simp
  then have "calculate_alphabet_sqr cap b a s = Inr s'"
    using run by (simp add: calculate_alphabet_sqr_def)
  moreover have "sqr_ok b a s'" using cells by (simp add: sqr_ok_def)
  ultimately show ?thesis by blast
qed

lemma sqr_lookup:
  assumes "sqr_ok b a s" "0 < b" "0 \<le> r" "r < b * b"
  shows "s (nat (2 * r)) = a (nat (r div b))" "s (nat (2 * r + 1)) = a (nat (r mod b))"
proof -
  let ?i = "nat (r div b)" and ?j = "nat (r mod b)"
  have "r div b < b" using assms by (simp add: int_div_less_iff)
  then have i: "?i < nat b" using assms by (simp add: nat_less_iff pos_imp_zdiv_nonneg_iff)
  have j: "?j < nat b" using assms by (simp add: nat_less_iff)
  have "int (?i * nat b + ?j) = (r div b) * b + r mod b"
    using assms by (simp add: pos_imp_zdiv_nonneg_iff)
  also have "\<dots> = r" by simp
  finally have "int (?i * nat b + ?j) = r" .
  then have "nat (int (?i * nat b + ?j)) = nat r" by (rule arg_cong)
  then have "?i * nat b + ?j = nat r" by (simp only: nat_int)
  then have idx: "nat (2 * r) = 2 * (?i * nat b + ?j)" "nat (2 * r + 1) = 2 * (?i * nat b + ?j) + 1"
    using assms by (simp_all add: nat_mult_distrib nat_add_distrib)
  from assms(1) i j have "s (2 * (?i * nat b + ?j)) = a ?i" "s (2 * (?i * nat b + ?j) + 1) = a ?j"
    by (simp_all add: sqr_ok_def)
  then show "s (nat (2 * r)) = a (nat (r div b))" "s (nat (2 * r + 1)) = a (nat (r mod b))"
    by (simp_all only: idx)
qed

lemma read_sqr_cases:
  assumes sok: "sqr_ok b a s" and b: "0 < b" "b \<le> int cap" and r: "0 \<le> r" "r < b * b"
    and cap: "int sqcap = 2 * int cap * int cap"
  shows "outcome (alphabet_ok cap b a) (the (a (nat (r div b)))) (read_char Alphabet_Sqr sqcap s (2 * r))"
    and "outcome (alphabet_ok cap b a) (the (a (nat (r mod b)))) (read_char Alphabet_Sqr sqcap s (2 * r + 1))"
proof -
  have "b * b \<le> int cap * int cap" using b by (intro mult_mono) simp_all
  then have in_range: "2 * r + 1 < int sqcap" using r cap by simp
  have "r div b < b" using b r by (simp add: int_div_less_iff)
  then have i: "nat (r div b) < nat b" using b r by (simp add: nat_less_iff pos_imp_zdiv_nonneg_iff)
  have j: "nat (r mod b) < nat b" using b r by (simp add: nat_less_iff)
  have ok: "a (nat (r div b)) \<noteq> None \<and> a (nat (r mod b)) \<noteq> None" if "alphabet_ok cap b a"
    using that i j unfolding alphabet_ok_def by auto
  show "outcome (alphabet_ok cap b a) (the (a (nat (r div b)))) (read_char Alphabet_Sqr sqcap s (2 * r))"
    using in_range r ok sqr_lookup(1) [OF sok b(1) r]
    by (auto simp: read_char_def alphabet_fault_def split: option.splits)
  show "outcome (alphabet_ok cap b a) (the (a (nat (r mod b)))) (read_char Alphabet_Sqr sqcap s (2 * r + 1))"
    using in_range r ok sqr_lookup(2) [OF sok b(1) r]
    by (auto simp: read_char_def alphabet_fault_def split: option.splits)
qed

lemma digits_of_two:
  assumes "2 \<le> b" "b \<le> x" "x < b * b"
  shows "digits_of b x = [x div b, x mod b]"
proof -
  have "x div b < b" using assms by (simp add: int_div_less_iff)
  then show ?thesis using assms by (simp add: digits_of_step digits_of_small)
qed

lemma digits_of_step2:
  assumes "2 \<le> b" "b * b \<le> x"
  shows "digits_of b x = digits_of b (x div (b * b)) @ [(x mod (b * b)) div b, x mod b]"
proof -
  have "b * 1 \<le> b * b" using assms by (intro mult_left_mono) simp_all
  then have "b \<le> b * b" by simp
  then have bx: "b \<le> x" using assms(2) by linarith
  have "b \<le> x div b" using assms by (simp add: int_le_div_iff)
  then have "digits_of b (x div b) = digits_of b (x div b div b) @ [(x div b) mod b]"
    using assms by (simp add: digits_of_step)
  moreover have "x div b div b = x div (b * b)" using assms by (simp add: zdiv_zmult2_eq)
  moreover have "(x mod (b * b)) div b = (x div b) mod b"
    using mod_power_div_base [of b x 1] assms by simp
  ultimately show ?thesis using assms bx by (simp add: digits_of_step)
qed

lemma mp2_loop_correct:
  assumes T: "supported_numtype T" and ok: "mp2_ok P" and b: "b = mp2_base P"
  shows "0 < x \<Longrightarrow> x \<le> max_val T \<Longrightarrow> int (length (digits_of b x)) \<le> ptr \<Longrightarrow>
    outcome (alphabet_ok mp2_BASE_MAX b (mp2_alphabet P))
     (ptr - int (length (digits_of b x)), text_of (mp2_alphabet P) (digits_of b x) @ out)
     (case mp2_loop T P x (ptr, out) of Inl e \<Rightarrow> Inl e | Inr r \<Rightarrow> mp2_last_digit P r)"
proof (induction "nat x" arbitrary: x ptr out rule: less_induct)
  case less
  let ?ok = "alphabet_ok mp2_BASE_MAX b (mp2_alphabet P)"
  have b2: "2 \<le> b" and bcap: "b \<le> 36" and sq: "mp2_base_sqr P = b * b"
    and sok: "sqr_ok b (mp2_alphabet P) (mp2_alphabet_sqr P)"
    using ok b by (simp_all add: mp2_ok_def mp2_BASE_MAX_def)
  show ?case
  proof (cases "x < b")
    case True
    have rd: "outcome ?ok (the (mp2_alphabet P (nat x))) (read_char Alphabet mp2_BASE_MAX (mp2_alphabet P) x)"
      using less.prems True by (intro read_char_cases) simp_all
    have lp: "mp2_loop T P x (ptr, out) = Inr (x, ptr, out)"
      using True b by (simp add: mp2_loop.simps [of T P x])
    show ?thesis using rd True less.prems b lp
      by (cases "read_char Alphabet mp2_BASE_MAX (mp2_alphabet P) x")
         (simp_all add: mp2_last_digit_def digits_of_small text_of_def)
  next
    case False
    let ?r = "x mod (b * b)"
    let ?c0 = "the (mp2_alphabet P (nat (?r div b)))"
    let ?c1 = "the (mp2_alphabet P (nat (?r mod b)))"
    let ?sq = "2 * mp2_BASE_MAX * mp2_BASE_MAX"
    have bb: "0 < b * b" using b2 by simp
    have r: "0 \<le> ?r" "?r < b * b" using bb by simp_all
    have "b * b \<le> 36 * 36" using b2 bcap by (intro mult_mono) simp_all
    then have r_small: "2 * ?r \<le> 2592" using r by simp
    have "2 * ?r \<le> max_val T" using r_small max_val_lower [OF T] by simp
    then have nr: "num_result T (2 * ?r) = Inr (2 * ?r)"
      using r supported_bits [OF T] by (intro num_result_id) simp_all
    have idx: "to_short (2 * ?r) = 2 * ?r" using r r_small by (simp add: to_short_id)
    have md: "c_mod x (mp2_base_sqr P) = Inr ?r" "c_div x (mp2_base_sqr P) = Inr (x div (b * b))"
      using less.prems bb sq b2 by (simp_all add: c_mod_def c_div_def sdiv_nonneg smod_nonneg)
    have sqcap: "int ?sq = 2 * int mp2_BASE_MAX * int mp2_BASE_MAX"
      by simp
    have bc: "0 < b" "b \<le> int mp2_BASE_MAX" using b2 bcap by (simp_all add: mp2_BASE_MAX_def)
    have rd0: "outcome ?ok ?c0 (read_char Alphabet_Sqr ?sq (mp2_alphabet_sqr P) (2 * ?r))"
      and rd1: "outcome ?ok ?c1 (read_char Alphabet_Sqr ?sq (mp2_alphabet_sqr P) (2 * ?r + 1))"
      using read_sqr_cases [OF sok bc r sqcap] by simp_all
    have len2: "2 \<le> length (digits_of b x)"
      using False b2 by (simp add: digits_of_step digits_of_nonempty Suc_le_eq)
    then have ptr: "\<not> ptr \<le> 0" "\<not> ptr - 1 \<le> 0" using less.prems by simp_all
    show ?thesis
    proof (cases "read_char Alphabet_Sqr ?sq (mp2_alphabet_sqr P) (2 * ?r + 1)")
      case (Inl e)
      then show ?thesis using rd1 False b md nr idx
        by (simp add: mp2_loop.simps [of T P x])
    next
      case c1: (Inr c1)
      show ?thesis
      proof (cases "read_char Alphabet_Sqr ?sq (mp2_alphabet_sqr P) (2 * ?r)")
        case (Inl e)
        then show ?thesis using rd0 c1 False b md nr idx ptr
          by (simp add: mp2_loop.simps [of T P x])
      next
        case c0: (Inr c0)
        have cs: "c0 = ?c0" "c1 = ?c1" using rd0 rd1 c0 c1 by simp_all
        have unfold: "mp2_loop T P x (ptr, out) = mp2_loop T P (x div (b * b)) (ptr - 2, ?c0 # ?c1 # out)"
          using False b md c0 c1 cs nr idx ptr by (simp add: mp2_loop.simps [of T P x])
        show ?thesis
        proof (cases "x < b * b")
          case True
          then have z: "x div (b * b) = 0" using less.prems by simp
          have xr: "?r = x" using True less.prems by simp
          have "mp2_loop T P 0 (ptr - 2, ?c0 # ?c1 # out) = Inr (0, ptr - 2, ?c0 # ?c1 # out)"
            using b b2 by (simp add: mp2_loop.simps [of T P 0])
          then show ?thesis using unfold z xr True False b2
            by (simp add: mp2_last_digit_def digits_of_two text_of_def)
        next
          case big: False
          let ?y = "x div (b * b)"
          have y: "0 < ?y" using big bb by (simp add: pos_imp_zdiv_pos_iff)
          have ylt: "?y < x" using less.prems b2 bb
            by (intro int_div_less_self) (simp_all add: less_1_mult)
          have ds: "digits_of b x = digits_of b ?y @ [?r div b, x mod b]"
            using big b2 by (intro digits_of_step2) simp_all
          have rm: "?r mod b = x mod b" by (simp add: mod_mod_cancel)
          have e: "ptr - 2 - int (length (digits_of b ?y)) = ptr - int (length (digits_of b x))"
            using ds by simp
          have t: "text_of (mp2_alphabet P) (digits_of b ?y) @ ?c0 # ?c1 # out =
              text_of (mp2_alphabet P) (digits_of b x) @ out"
            using ds rm by (simp add: text_of_def)
          have "outcome ?ok
                (ptr - 2 - int (length (digits_of b ?y)),
                 text_of (mp2_alphabet P) (digits_of b ?y) @ ?c0 # ?c1 # out)
                (case mp2_loop T P ?y (ptr - 2, ?c0 # ?c1 # out) of Inl e \<Rightarrow> Inl e
                  | Inr r \<Rightarrow> mp2_last_digit P r)"
            using y ylt less.prems ds by (intro less.hyps) simp_all
          then show ?thesis by (simp only: e t unfold)
        qed
      qed
    qed
  qed
qed

lemma mp2_print_correct:
  assumes T: "supported_numtype T" and ok: "mp2_ok P" and x: "0 \<le> x" "x \<le> max_val T"
  shows "outcome (alphabet_ok mp2_BASE_MAX (mp2_base P) (mp2_alphabet P))
           (int (length (digits_of (mp2_base P) x)), text_of (mp2_alphabet P) (digits_of (mp2_base P) x))
           (mp2_print T P x)"
proof (cases "x = 0")
  case True
  have b: "2 \<le> mp2_base P" using ok by (simp add: mp2_ok_def)
  have "outcome (alphabet_ok mp2_BASE_MAX (mp2_base P) (mp2_alphabet P)) (the (mp2_alphabet P (nat 0)))
      (read_char Alphabet mp2_BASE_MAX (mp2_alphabet P) 0)"
    using b by (intro read_char_cases) simp_all
  then show ?thesis using True b
    by (cases "read_char Alphabet mp2_BASE_MAX (mp2_alphabet P) 0")
       (simp_all add: mp2_print_def mp2_print_to_buffer_def mp2_DIGITS_MAX_def digits_of_small text_of_def)
next
  case False
  let ?b = "mp2_base P"
  have b: "2 \<le> ?b" using ok by (simp add: mp2_ok_def)
  have "x < 2 ^ 64" using x max_val_upper [OF T] by simp
  then have "length (digits_of ?b x) \<le> 64" using b by (intro length_digits_of_64)
  then have "int (length (digits_of ?b x)) \<le> int mp2_DIGITS_MAX - 1"
    by (simp add: mp2_DIGITS_MAX_def)
  then have "outcome (alphabet_ok mp2_BASE_MAX ?b (mp2_alphabet P))
     (int mp2_DIGITS_MAX - 1 - int (length (digits_of ?b x)),
          text_of (mp2_alphabet P) (digits_of ?b x) @ [])
     (case mp2_loop T P x (int mp2_DIGITS_MAX - 1, []) of Inl e \<Rightarrow> Inl e | Inr r \<Rightarrow> mp2_last_digit P r)"
    using x False by (intro mp2_loop_correct [OF T ok]) simp_all
  then show ?thesis using False
    by (cases "case mp2_loop T P x (int mp2_DIGITS_MAX - 1, []) of Inl e \<Rightarrow> Inl e | Inr r \<Rightarrow> mp2_last_digit P r")
       (auto simp add: mp2_print_def mp2_print_to_buffer_def Let_def)
qed

lemma powers_table_Suc: "powers_table b (Suc n) = powers_table b n @ [b ^ n]"
  by (simp add: powers_table_def)

lemma length_powers_table [simp]: "length (powers_table b n) = n"
  by (simp add: powers_table_def)

lemma nth_powers_table: "k < n \<Longrightarrow> powers_table b n ! k = b ^ k"
  by (simp add: powers_table_def)

lemma cache_nth: "cache_ok T b r ps \<Longrightarrow> k < length ps \<Longrightarrow> ps ! k = b ^ k"
  unfolding cache_ok_def using nth_powers_table [of k "length ps" b] by auto

lemma cache_last: "cache_ok T b r ps \<Longrightarrow> last ps = b ^ (length ps - 1)"
proof -
  assume c: "cache_ok T b r ps"
  then have ne: "ps \<noteq> []" by (simp add: cache_ok_def)
  then have "length ps - 1 < length ps" by simp
  then have "ps ! (length ps - 1) = b ^ (length ps - 1)" using c by (rule cache_nth [rotated])
  then show ?thesis using ne by (simp add: last_conv_nth)
qed

lemma cache_length:
  assumes "supported_numtype T" "cache_ok T b r ps" "2 \<le> b"
  shows "length ps \<le> bits T" "length ps \<le> 64"
proof -
  have m: "max_val T < 2 ^ bits T"
  proof (cases "is_signed T")
    case True
    have "(2::int) ^ (bits T - 1) \<le> 2 ^ bits T" by (intro power_increasing) simp_all
    then have "(2::int) ^ (bits T - 1) - 1 < 2 ^ bits T" by linarith
    then show ?thesis using True by (simp only: max_val_def if_True)
  next
    case False
    then show ?thesis by (simp add: max_val_def)
  qed
  have "b ^ (length ps - 1) \<le> max_val T" using assms by (simp add: cache_ok_def)
  moreover have "(2::int) ^ (length ps - 1) \<le> b ^ (length ps - 1)"
    using assms by (intro power_mono) simp_all
  ultimately have "(2::int) ^ (length ps - 1) < 2 ^ bits T" using m by linarith
  then have "length ps - 1 < bits T" by (simp only: power_strict_increasing_iff [of 2])
  then show "length ps \<le> bits T" by simp
  then show "length ps \<le> 64" using assms by (simp add: supported_numtype_def)
qed

text \<open>What append_helper_data does on a well-formed cache.\<close>

lemma cache_append:
  assumes T: "supported_numtype T" and c: "cache_ok T b r ps" and b: "2 \<le> b"
  shows "b ^ length ps \<le> max_val T \<Longrightarrow> num_result T (last ps * b) = Inr (b ^ length ps)"
    and "b ^ length ps \<le> max_val T \<Longrightarrow> c_div (b ^ length ps) b = Inr (last ps)"
    and "\<not> b ^ length ps \<le> max_val T \<Longrightarrow>
           num_result T (last ps * b) =
             (if is_signed T then Inl Signed_Overflow else Inr (wrap T (last ps * b))) \<and>
           c_div (wrap T (last ps * b)) b = Inr (wrap T (last ps * b) sdiv b) \<and>
           wrap T (last ps * b) sdiv b \<noteq> last ps"
    and "b ^ length ps \<le> max_val T \<Longrightarrow> cache_ok T b False (ps @ [b ^ length ps])"
    and "\<not> b ^ length ps \<le> max_val T \<Longrightarrow> \<not> is_signed T \<Longrightarrow> cache_ok T b True ps"
proof -
  have ne: "ps \<noteq> []" using c by (simp add: cache_ok_def)
  then have len: "length ps = Suc (length ps - 1)" by simp
  have l: "last ps = b ^ (length ps - 1)" using c by (rule cache_last)
  have "b ^ length ps = b ^ Suc (length ps - 1)" using len by simp
  then have prod: "last ps * b = b ^ length ps" by (simp add: l)
  have one: "1 \<le> last ps" using b l by simp
  have pos: "0 \<le> b ^ length ps" using b by simp
  have chk: "(wrap T (last ps * b) sdiv b = last ps) = (b ^ length ps \<le> max_val T)"
    using overflow_check [OF supported_bits [OF T] one, of b] b prod by simp
  show "b ^ length ps \<le> max_val T \<Longrightarrow> num_result T (last ps * b) = Inr (b ^ length ps)"
    using num_result_id [OF supported_bits [OF T] pos] prod by simp
  show "b ^ length ps \<le> max_val T \<Longrightarrow> c_div (b ^ length ps) b = Inr (last ps)"
  proof -
    assume f: "b ^ length ps \<le> max_val T"
    have "wrap T (last ps * b) = b ^ length ps"
      using prod pos f supported_bits [OF T] by (simp add: wrap_id)
    then have "b ^ length ps sdiv b = last ps" using chk f by simp
    then show ?thesis using b by (simp add: c_div_def)
  qed
  show "\<not> b ^ length ps \<le> max_val T \<Longrightarrow>
           num_result T (last ps * b) =
             (if is_signed T then Inl Signed_Overflow else Inr (wrap T (last ps * b))) \<and>
           c_div (wrap T (last ps * b)) b = Inr (wrap T (last ps * b) sdiv b) \<and>
           wrap T (last ps * b) sdiv b \<noteq> last ps"
  proof -
    assume f: "\<not> b ^ length ps \<le> max_val T"
    have "num_result T (last ps * b) =
             (if is_signed T then Inl Signed_Overflow else Inr (wrap T (last ps * b)))"
      using f prod by (simp add: num_result_def)
    moreover have "c_div (wrap T (last ps * b)) b = Inr (wrap T (last ps * b) sdiv b)"
      using b by (simp add: c_div_def)
    moreover have "wrap T (last ps * b) sdiv b \<noteq> last ps" using chk f by simp
    ultimately show ?thesis by simp
  qed
  show "b ^ length ps \<le> max_val T \<Longrightarrow> cache_ok T b False (ps @ [b ^ length ps])"
    using c by (simp add: cache_ok_def powers_table_Suc)
  show "\<not> b ^ length ps \<le> max_val T \<Longrightarrow> \<not> is_signed T \<Longrightarrow> cache_ok T b True ps"
    using c by (simp add: cache_ok_def)
qed

lemma lr_append_correct:
  assumes T: "supported_numtype T" and ok: "lr_ok T P"
  shows "lr_append_helper_data T P =
     (if lr_base P ^ length (lr_powers P) \<le> max_val T
      then Inr (True, P\<lparr>lr_powers := lr_powers P @ [lr_base P ^ length (lr_powers P)]\<rparr>)
      else if is_signed T then Inl Signed_Overflow
      else Inr (False, P))"
proof -
  let ?b = "lr_base P" and ?ps = "lr_powers P"
  have c: "cache_ok T ?b (lr_reached_max_power P) ?ps" and b: "2 \<le> ?b"
    using ok by (simp_all add: lr_ok_def)
  have ne: "?ps \<noteq> []" using c by (simp add: cache_ok_def)
  have len: "length ?ps \<le> 64" using cache_length [OF T c b] by simp
  show ?thesis
  proof (cases "?b ^ length ?ps \<le> max_val T")
    case True
    then show ?thesis using cache_append(1,2) [OF T c b True] ne len
      by (simp add: lr_append_helper_data_def lr_MAX_DIGITS_def)
  next
    case False
    then show ?thesis using cache_append(3) [OF T c b False] ne
      by (simp add: lr_append_helper_data_def)
  qed
qed

lemma length_fixed_digits [simp]: "length (fixed_digits b k n) = k"
  by (induction k arbitrary: n) simp_all

lemma digits_count_unique:
  "2 \<le> b \<Longrightarrow> b ^ k \<le> n \<Longrightarrow> n < b ^ Suc k \<Longrightarrow> length (digits_of b n) = Suc k"
  using digits_of_fixed [of b k n] by simp

lemma digits_count:
  "2 \<le> b \<Longrightarrow> 1 \<le> n \<Longrightarrow>
   b ^ (length (digits_of b n) - 1) \<le> n \<and> n < b ^ length (digits_of b n)"
proof (induction b n rule: digits_of.induct)
  case (1 b n)
  show ?case
  proof (cases "n < b")
    case True
    then show ?thesis using 1 by (simp add: digits_of_small)
  next
    case False
    let ?m = "length (digits_of b (n div b))"
    have pos: "1 \<le> n div b" using False 1 by (simp add: int_le_div_iff)
    have IH: "b ^ (?m - 1) \<le> n div b \<and> n div b < b ^ ?m"
      using False 1 pos by simp
    have m: "?m = Suc (?m - 1)" using digits_of_nonempty [of b "n div b"] by simp
    have len: "length (digits_of b n) = Suc ?m" using False 1 by (simp add: digits_of_step)
    have "b ^ (?m - 1) * b \<le> n" using IH 1 by (simp add: int_le_div_iff)
    moreover have "b ^ ?m = b ^ (?m - 1) * b" by (subst m) simp
    ultimately have lo: "b ^ ?m \<le> n" by simp
    have hi: "n < b ^ ?m * b" using IH 1 by (simp add: int_div_less_iff)
    show ?thesis using lo hi len by (simp add: mult.commute)
  qed
qed


lemma length_le_digits:
  assumes b: "2 \<le> b" and num: "1 \<le> num" and le: "b ^ k \<le> num"
  shows "Suc k \<le> length (digits_of b num)"
proof -
  let ?m = "length (digits_of b num)"
  have "num < b ^ ?m" using digits_count [OF b num] by simp
  then have "b ^ k < b ^ ?m" using le by linarith
  then have "k < ?m" using b by (simp only: power_strict_increasing_iff)
  then show ?thesis by linarith
qed


lemma lr_grow_correct:
  assumes T: "supported_numtype T" and num: "1 \<le> num" "num \<le> max_val T"
  shows "lr_ok T P \<Longrightarrow> \<not> lr_reached_max_power P \<Longrightarrow>
     \<not> overflows T (lr_base P) (length (digits_of (lr_base P) num)) \<Longrightarrow>
     \<exists>r P'. lr_grow T P num = Inr (r, P') \<and> lr_ok T P' \<and>
        lr_base P' = lr_base P \<and> lr_alphabet P' = lr_alphabet P \<and>
        length (lr_powers P) \<le> length (lr_powers P') \<and>
        (case r of
           None \<Rightarrow> num < last (lr_powers P') \<and> \<not> lr_reached_max_power P'
         | Some k \<Rightarrow> k = int (length (lr_powers P')) - 1 \<and> last (lr_powers P') \<le> num \<and>
                     lr_reached_max_power P')"
proof (induction "65 - length (lr_powers P)" arbitrary: P rule: less_induct)
  case less
  let ?b = "lr_base P" and ?ps = "lr_powers P"
  have c: "cache_ok T ?b (lr_reached_max_power P) ?ps" and b: "2 \<le> ?b" "?b \<le> 32767"
    using less.prems by (simp_all add: lr_ok_def)
  have ne: "?ps \<noteq> []" using c by (simp add: cache_ok_def)
  have len: "length ?ps \<le> 64" using cache_length [OF T c b(1)] by simp
  show ?case
  proof (cases "last ?ps \<le> num")
    case False
    then have "lr_grow T P num = Inr (None, P)" using ne by (simp add: lr_grow.simps [of T P num])
    then show ?thesis using False less.prems by simp
  next
    case True
    show ?thesis
    proof (cases "?b ^ length ?ps \<le> max_val T")
      case fits: True
      let ?P1 = "P\<lparr>lr_powers := ?ps @ [?b ^ length ?ps]\<rparr>"
      have app: "lr_append_helper_data T P = Inr (True, ?P1)"
        using lr_append_correct [OF T less.prems(1)] fits by simp
      have ok1: "lr_ok T ?P1"
        using cache_append(4) [OF T c b(1) fits] b less.prems(2) by (simp add: lr_ok_def)
      have "\<exists>r P'. lr_grow T ?P1 num = Inr (r, P') \<and> lr_ok T P' \<and>
          lr_base P' = lr_base ?P1 \<and> lr_alphabet P' = lr_alphabet ?P1 \<and>
          length (lr_powers ?P1) \<le> length (lr_powers P') \<and>
          (case r of
             None \<Rightarrow> num < last (lr_powers P') \<and> \<not> lr_reached_max_power P'
           | Some k \<Rightarrow> k = int (length (lr_powers P')) - 1 \<and> last (lr_powers P') \<le> num \<and>
                       lr_reached_max_power P')"
        using len ok1 less.prems(2,3) by (intro less.hyps) simp_all
      moreover have "lr_grow T P num = lr_grow T ?P1 num"
        using True ne app by (simp add: lr_grow.simps [of T P num])
      ultimately show ?thesis by auto
    next
      case over: False
      let ?P2 = "P\<lparr>lr_reached_max_power := True\<rparr>"
      have "?b ^ (length ?ps - 1) \<le> num" using True cache_last [OF c] by simp
      then have "Suc (length ?ps - 1) \<le> length (digits_of ?b num)"
        using b(1) num(1) by (intro length_le_digits)
      then have "length ?ps \<le> length (digits_of ?b num)" using ne by simp
      then have "?b ^ length ?ps \<le> ?b ^ length (digits_of ?b num)"
        using b(1) by (intro power_increasing) simp_all
      then have us: "\<not> is_signed T" using over less.prems(3) by (auto simp: overflows_def)
      have app: "lr_append_helper_data T P = Inr (False, P)"
        using lr_append_correct [OF T less.prems(1)] over us by simp
      have run: "lr_grow T P num = Inr (Some (int (length ?ps) - 1), ?P2)"
        using True ne app by (simp add: lr_grow.simps [of T P num])
      have "lr_ok T ?P2"
        using cache_append(5) [OF T c b(1) over us] b by (simp add: lr_ok_def)
      then show ?thesis using run True by simp
    qed
  qed
qed


lemma lr_scan_correct:
  assumes c: "cache_ok T (lr_base P) r (lr_powers P)" and b: "2 \<le> lr_base P"
    and m: "m < length (lr_powers P)" "lr_base P ^ (m - 1) \<le> num" "num < lr_base P ^ m" "1 \<le> m"
  shows "i \<le> m \<Longrightarrow> lr_scan P num i = Inr m"
proof (induction "m - i" arbitrary: i)
  case 0
  then have "i = m" by simp
  then show ?case using m cache_nth [OF c m(1)] by (simp add: lr_scan.simps [of P num m])
next
  case (Suc d)
  then have i: "i < m" "i \<le> m - 1" by simp_all
  then have il: "i < length (lr_powers P)" using m by simp
  have "lr_base P ^ i \<le> lr_base P ^ (m - 1)" using i b by (intro power_increasing) simp_all
  then have "lr_powers P ! i \<le> num" using m cache_nth [OF c il] by simp
  moreover have "lr_scan P num (i + 1) = Inr m" using Suc i by (intro Suc.hyps) simp_all
  ultimately show ?case using il by (simp add: lr_scan.simps [of P num i])
qed

lemma lr_get_max_power_ptr_correct:
  assumes T: "supported_numtype T" and ok: "lr_ok T P" and num: "1 \<le> num" "num \<le> max_val T"
    and no: "\<not> overflows T (lr_base P) (length (digits_of (lr_base P) num))"
  shows "\<exists>P'. lr_get_max_power_ptr T P num = Inr (int (length (digits_of (lr_base P) num)) - 1, P') \<and>
        lr_ok T P' \<and> lr_base P' = lr_base P \<and> lr_alphabet P' = lr_alphabet P \<and>
        length (digits_of (lr_base P) num) \<le> length (lr_powers P') \<and>
        length (lr_powers P) \<le> length (lr_powers P') \<and>
        (lr_reached_max_power P \<longrightarrow> P' = P) \<and>
        (\<not> lr_reached_max_power P' \<longrightarrow> num < last (lr_powers P'))"
proof -
  let ?b = "lr_base P" and ?m = "length (digits_of (lr_base P) num)"
  have b: "2 \<le> ?b" using ok by (simp add: lr_ok_def)
  have dc: "?b ^ (?m - 1) \<le> num" "num < ?b ^ ?m" using digits_count [OF b num(1)] by simp_all
  have m1: "1 \<le> ?m" using digits_of_nonempty [of ?b num] by (simp add: Suc_le_eq)
  text \<open>the two ways the function ends, on a cache Q that is well formed\<close>
  have top: "?m = length (lr_powers Q)"
    if "lr_ok T Q" "lr_base Q = ?b" "lr_reached_max_power Q" "last (lr_powers Q) \<le> num" for Q
  proof -
    have c: "cache_ok T ?b True (lr_powers Q)" using that by (simp add: lr_ok_def)
    then have ne: "lr_powers Q \<noteq> []" by (simp add: cache_ok_def)
    have "?b ^ (length (lr_powers Q) - 1) \<le> num" using cache_last [OF c] that by simp
    moreover have "num < ?b ^ Suc (length (lr_powers Q) - 1)"
      using c num ne by (simp add: cache_ok_def)
    ultimately have "?m = Suc (length (lr_powers Q) - 1)" using b by (intro digits_count_unique)
    then show ?thesis using ne by simp
  qed
  have find: "lr_find_power Q num = Inr (int ?m - 1, Q) \<and> ?m \<le> length (lr_powers Q)"
    if "lr_ok T Q" "lr_base Q = ?b" "num < last (lr_powers Q)" for Q
  proof -
    have c: "cache_ok T (lr_base Q) (lr_reached_max_power Q) (lr_powers Q)"
      using that by (simp add: lr_ok_def)
    have "?b ^ (?m - 1) < ?b ^ (length (lr_powers Q) - 1)"
      using dc that cache_last [OF c] by simp
    then have "?m - 1 < length (lr_powers Q) - 1" using b by (simp only: power_strict_increasing_iff)
    then have ml: "?m < length (lr_powers Q)" by simp
    have "lr_scan Q num 0 = Inr ?m"
      using c b ml dc m1 that by (intro lr_scan_correct [where T = T and r = "lr_reached_max_power Q"]) simp_all
    then show ?thesis using ml by (simp add: lr_find_power_def)
  qed
  show ?thesis
  proof (cases "lr_reached_max_power P")
    case True
    have c: "cache_ok T ?b True (lr_powers P)" using ok True by (simp add: lr_ok_def)
    then have ne: "lr_powers P \<noteq> []" by (simp add: cache_ok_def)
    show ?thesis
    proof (cases "last (lr_powers P) \<le> num")
      case le: True
      then show ?thesis using True ne ok top [OF ok refl True le]
        by (simp add: lr_get_max_power_ptr_def)
    next
      case False
      then show ?thesis using True ne ok find [of P]
        by (simp add: lr_get_max_power_ptr_def)
    qed
  next
    case False
    obtain r P' where g: "lr_grow T P num = Inr (r, P')" and ok': "lr_ok T P'"
      and same: "lr_base P' = ?b" "lr_alphabet P' = lr_alphabet P"
        "length (lr_powers P) \<le> length (lr_powers P')"
      and r: "case r of
           None \<Rightarrow> num < last (lr_powers P') \<and> \<not> lr_reached_max_power P'
         | Some k \<Rightarrow> k = int (length (lr_powers P')) - 1 \<and> last (lr_powers P') \<le> num \<and>
                     lr_reached_max_power P'"
      using lr_grow_correct [OF T num ok False no] by blast
    show ?thesis
    proof (cases r)
      case None
      then show ?thesis using False g ok' same r find [of P']
        by (simp add: lr_get_max_power_ptr_def)
    next
      case (Some k)
      then show ?thesis using False g ok' same r top [of P']
        by (simp add: lr_get_max_power_ptr_def)
    qed
  qed
qed


lemma digits_of_fixed_count:
  assumes "2 \<le> b" "1 \<le> n"
  shows "fixed_digits b (length (digits_of b n)) n = digits_of b n"
proof -
  obtain j where j: "length (digits_of b n) = Suc j"
    using digits_of_nonempty [of b n] by (cases "digits_of b n") simp_all
  have "b ^ j \<le> n" "n < b ^ Suc j"
    using digits_count [OF assms] j by simp_all
  then have "digits_of b n = fixed_digits b (Suc j) n"
    using assms by (intro digits_of_fixed)
  then have "fixed_digits b (Suc j) n = digits_of b n" by (rule sym)
  then show ?thesis unfolding j .
qed

lemma lr_print_loop_correct:
  assumes T: "supported_numtype T" and ok: "lr_ok T P" and b: "b = lr_base P"
  shows "k < int (length (lr_powers P)) \<Longrightarrow> - 1 \<le> k \<Longrightarrow> 0 \<le> num \<Longrightarrow>
     num < b ^ nat (k + 1) \<Longrightarrow> num \<le> max_val T \<Longrightarrow>
     outcome (alphabet_ok lr_MAX_BASE b (lr_alphabet P))
       (0, out @ text_of (lr_alphabet P) (fixed_digits b (nat (k + 1)) num))
       (lr_print_loop T P k num out)"
proof (induction "nat (k + 1)" arbitrary: k num out)
  case 0
  then have "k = - 1" by simp
  then show ?case using 0 by (simp add: lr_print_loop.simps [of T P "- 1"] text_of_def)
next
  case (Suc n)
  let ?ok = "alphabet_ok lr_MAX_BASE b (lr_alphabet P)"
  have c: "cache_ok T b (lr_reached_max_power P) (lr_powers P)" and b2: "2 \<le> b" "b \<le> 32767"
    using ok b by (simp_all add: lr_ok_def)
  have k: "0 \<le> k" "nat k = n" "nat (k + 1) = Suc n" using Suc.hyps(2) by simp_all
  have kl: "n < length (lr_powers P)" using Suc.prems k by simp
  have pw: "lr_powers P ! nat k = b ^ n" using cache_nth [OF c kl] k by simp
  have pos: "0 < b ^ n" using b2 by simp
  let ?q = "num div b ^ n"
  have q: "0 \<le> ?q" "?q < b"
    using Suc.prems k pos by (simp_all add: pos_imp_zdiv_nonneg_iff int_div_less_iff mult.commute)
  have dv: "c_div num (lr_powers P ! nat k) = Inr ?q"
    using pw pos Suc.prems b2 by (simp add: c_div_def sdiv_nonneg)
  have ts: "to_short ?q = ?q" using q b2 by (intro to_short_id) simp_all
  have dm: "?q * b ^ n + num mod b ^ n = num" by (rule div_mult_mod_eq)
  have md: "0 \<le> num mod b ^ n" "num mod b ^ n < b ^ n" using pos by simp_all
  have "0 \<le> ?q * b ^ n" using q pos by simp
  then have prod: "0 \<le> ?q * b ^ n" "?q * b ^ n \<le> num" "num - ?q * b ^ n = num mod b ^ n"
    using dm md by linarith+
  have le: "num mod b ^ n \<le> num" using md prod by linarith
  have "?q * b ^ n \<le> max_val T" using prod Suc.prems by linarith
  then have "num_result T (?q * b ^ n) = Inr (?q * b ^ n)"
    using prod supported_bits [OF T] by (intro num_result_id) simp_all
  then have n1: "num_result T (to_short ?q * (lr_powers P ! nat k)) = Inr (?q * b ^ n)"
    using ts pw by simp
  have "num mod b ^ n \<le> max_val T" using le Suc.prems by linarith
  then have "num_result T (num mod b ^ n) = Inr (num mod b ^ n)"
    using md supported_bits [OF T] by (intro num_result_id) simp_all
  then have n2: "num_result T (num - ?q * b ^ n) = Inr (num mod b ^ n)" using prod by simp
  have rd: "outcome ?ok (the (lr_alphabet P (nat ?q))) (read_char Alphabet lr_MAX_BASE (lr_alphabet P) ?q)"
    using q by (intro read_char_cases) simp_all
  show ?case
  proof (cases "read_char Alphabet lr_MAX_BASE (lr_alphabet P) ?q")
    case (Inl e)
    then show ?thesis using rd k Suc.prems dv ts q b
      by (simp add: lr_print_loop.simps [of T P k] Let_def)
  next
    case (Inr ch)
    then have ch: "ch = the (lr_alphabet P (nat ?q))" using rd by simp
    have step: "lr_print_loop T P k num out = lr_print_loop T P (k - 1) (num mod b ^ n) (out @ [ch])"
      using Inr k Suc.prems dv ts q b n1 n2
      by (simp add: lr_print_loop.simps [of T P k] Let_def)
    have "n = nat (k - 1 + 1)" using k by simp
    moreover have "num mod b ^ n < b ^ nat (k - 1 + 1)" using md k by simp
    moreover have "num mod b ^ n \<le> max_val T" using le Suc.prems by simp
    ultimately have "outcome ?ok
       (0, (out @ [ch]) @ text_of (lr_alphabet P) (fixed_digits b (nat (k - 1 + 1)) (num mod b ^ n)))
       (lr_print_loop T P (k - 1) (num mod b ^ n) (out @ [ch]))"
      using Suc.prems md k by (intro Suc.hyps(1)) simp_all
    moreover have "(out @ [ch]) @ text_of (lr_alphabet P) (fixed_digits b (nat (k - 1 + 1)) (num mod b ^ n))
       = out @ text_of (lr_alphabet P) (fixed_digits b (nat (k + 1)) num)"
      using k ch by (simp add: text_of_def)
    ultimately show ?thesis using step by simp
  qed
qed

lemma lr_print_to_out_iter_correct:
  assumes T: "supported_numtype T" and ok: "lr_ok T P" and x: "0 \<le> x" "x \<le> max_val T"
    and no: "\<not> overflows T (lr_base P) (length (digits_of (lr_base P) x))"
  shows "\<exists>P'. lr_ok T P' \<and> lr_base P' = lr_base P \<and> lr_alphabet P' = lr_alphabet P \<and>
     (lr_reached_max_power P \<longrightarrow> P' = P) \<and>
     length (lr_powers P) \<le> length (lr_powers P') \<and>
     (x \<noteq> 0 \<longrightarrow> \<not> lr_reached_max_power P' \<longrightarrow> x < last (lr_powers P')) \<and>
     outcome (alphabet_ok lr_MAX_BASE (lr_base P) (lr_alphabet P))
       (text_of (lr_alphabet P) (digits_of (lr_base P) x), P')
       (lr_print_to_out_iter T P x)"
proof (cases "x = 0")
  case True
  have b: "2 \<le> lr_base P" using ok by (simp add: lr_ok_def)
  have "outcome (alphabet_ok lr_MAX_BASE (lr_base P) (lr_alphabet P)) (the (lr_alphabet P (nat 0)))
      (read_char Alphabet lr_MAX_BASE (lr_alphabet P) 0)"
    using b by (intro read_char_cases) simp_all
  then have "outcome (alphabet_ok lr_MAX_BASE (lr_base P) (lr_alphabet P))
       (text_of (lr_alphabet P) (digits_of (lr_base P) x), P)
       (lr_print_to_out_iter T P x)"
    using True b
    by (cases "read_char Alphabet lr_MAX_BASE (lr_alphabet P) 0")
       (simp_all add: lr_print_to_out_iter_def digits_of_small text_of_def)
  then show ?thesis using ok True by blast
next
  case False
  let ?b = "lr_base P" and ?m = "length (digits_of (lr_base P) x)"
  have b: "2 \<le> ?b" using ok by (simp add: lr_ok_def)
  have x1: "1 \<le> x" using False x by simp
  obtain P' where g: "lr_get_max_power_ptr T P x = Inr (int ?m - 1, P')"
    and ok': "lr_ok T P'" and same: "lr_base P' = ?b" "lr_alphabet P' = lr_alphabet P"
    and ml: "?m \<le> length (lr_powers P')" and unchanged: "lr_reached_max_power P \<longrightarrow> P' = P"
    and mono: "length (lr_powers P) \<le> length (lr_powers P')"
    and cover: "\<not> lr_reached_max_power P' \<longrightarrow> x < last (lr_powers P')"
    using lr_get_max_power_ptr_correct [OF T ok x1 x(2) no] by blast
  have m1: "1 \<le> ?m" using digits_of_nonempty [of ?b x] by (simp add: Suc_le_eq)
  have "x < ?b ^ ?m" using digits_count [OF b x1] by simp
  then have "outcome (alphabet_ok lr_MAX_BASE ?b (lr_alphabet P'))
       (0, [] @ text_of (lr_alphabet P') (fixed_digits ?b (nat (int ?m - 1 + 1)) x))
       (lr_print_loop T P' (int ?m - 1) x [])"
    using ml m1 x same by (intro lr_print_loop_correct [OF T ok']) simp_all
  then have lp: "outcome (alphabet_ok lr_MAX_BASE ?b (lr_alphabet P))
       (0, text_of (lr_alphabet P) (digits_of ?b x))
       (lr_print_loop T P' (int ?m - 1) x [])"
    using same digits_of_fixed_count [OF b x1] by simp
  have "outcome (alphabet_ok lr_MAX_BASE ?b (lr_alphabet P))
       (text_of (lr_alphabet P) (digits_of ?b x), P')
       (lr_print_to_out_iter T P x)"
    using False g lp
    by (cases "lr_print_loop T P' (int ?m - 1) x []")
       (auto simp add: lr_print_to_out_iter_def)
  then show ?thesis using ok' same unchanged mono cover by blast
qed


lemma lr2_append_correct:
  assumes T: "supported_numtype T" and ok: "lr2_ok T P"
  shows "lr2_append_helper_data T P =
     (if lr2_base P ^ length (lr2_powers P) \<le> max_val T
      then Inr (True, P\<lparr>lr2_powers := lr2_powers P @ [lr2_base P ^ length (lr2_powers P)]\<rparr>)
      else if is_signed T then Inl Signed_Overflow
      else Inr (False, P))"
proof -
  let ?b = "lr2_base P" and ?ps = "lr2_powers P"
  have c: "cache_ok T ?b (lr2_reached_max_power P) ?ps" and b: "2 \<le> ?b"
    using ok by (simp_all add: lr2_ok_def)
  have ne: "?ps \<noteq> []" using c by (simp add: cache_ok_def)
  have len: "length ?ps \<le> 64" using cache_length [OF T c b] by simp
  show ?thesis
  proof (cases "?b ^ length ?ps \<le> max_val T")
    case True
    then show ?thesis using cache_append(1,2) [OF T c b True] ne len
      by (simp add: lr2_append_helper_data_def lr2_DIGITS_MAX_def)
  next
    case False
    then show ?thesis using cache_append(3) [OF T c b False] ne
      by (simp add: lr2_append_helper_data_def)
  qed
qed

lemma lr2_grow_correct:
  assumes T: "supported_numtype T" and num: "1 \<le> num" "num \<le> max_val T"
  shows "lr2_ok T P \<Longrightarrow> \<not> lr2_reached_max_power P \<Longrightarrow>
     \<not> overflows T (lr2_base P) (Suc (length (digits_of (lr2_base P) num))) \<Longrightarrow>
     \<exists>r P'. lr2_grow T P num = Inr (r, P') \<and> lr2_ok T P' \<and> lr2_same P' P \<and>
        length (lr2_powers P) \<le> length (lr2_powers P') \<and>
        (case r of
           None \<Rightarrow> num < lr2_powers P' ! (length (lr2_powers P') - 2) \<and> \<not> lr2_reached_max_power P'
         | Some k \<Rightarrow> k = lr2_top_or_below P' num \<and>
                     lr2_powers P' ! (length (lr2_powers P') - 2) \<le> num \<and>
                     lr2_reached_max_power P')"
proof (induction "65 - length (lr2_powers P)" arbitrary: P rule: less_induct)
  case less
  let ?b = "lr2_base P" and ?ps = "lr2_powers P"
  have c: "cache_ok T ?b (lr2_reached_max_power P) ?ps" and b: "2 \<le> ?b"
    and l2: "2 \<le> length ?ps"
    using less.prems by (simp_all add: lr2_ok_def)
  have len: "length ?ps \<le> 64" using cache_length [OF T c b(1)] by simp
  have lb1: "lr2_last_but_one P = Inr (?ps ! (length ?ps - 2))"
    using l2 by (simp add: lr2_last_but_one_def)
  show ?case
  proof (cases "?ps ! (length ?ps - 2) \<le> num")
    case False
    then have "lr2_grow T P num = Inr (None, P)" using lb1 by (simp add: lr2_grow.simps [of T P num])
    then show ?thesis using False less.prems by (simp add: lr2_same_def)
  next
    case True
    show ?thesis
    proof (cases "?b ^ length ?ps \<le> max_val T")
      case fits: True
      let ?P1 = "P\<lparr>lr2_powers := ?ps @ [?b ^ length ?ps]\<rparr>"
      have app: "lr2_append_helper_data T P = Inr (True, ?P1)"
        using lr2_append_correct [OF T less.prems(1)] fits by simp
      have ok1: "lr2_ok T ?P1"
        using cache_append(4) [OF T c b(1) fits] less.prems by (simp add: lr2_ok_def)
      have "\<exists>r P'. lr2_grow T ?P1 num = Inr (r, P') \<and> lr2_ok T P' \<and> lr2_same P' ?P1 \<and>
          length (lr2_powers ?P1) \<le> length (lr2_powers P') \<and>
          (case r of
             None \<Rightarrow> num < lr2_powers P' ! (length (lr2_powers P') - 2) \<and> \<not> lr2_reached_max_power P'
           | Some k \<Rightarrow> k = lr2_top_or_below P' num \<and>
                       lr2_powers P' ! (length (lr2_powers P') - 2) \<le> num \<and>
                       lr2_reached_max_power P')"
        using len ok1 less.prems(2,3) by (intro less.hyps) simp_all
      moreover have "lr2_grow T P num = lr2_grow T ?P1 num"
        using True lb1 app by (simp add: lr2_grow.simps [of T P num])
      ultimately show ?thesis by (auto simp add: lr2_same_def)
    next
      case over: False
      let ?P2 = "P\<lparr>lr2_reached_max_power := True\<rparr>"
      have "length ?ps - 2 < length ?ps" using l2 by simp
      then have "?ps ! (length ?ps - 2) = ?b ^ (length ?ps - 2)" by (rule cache_nth [OF c])
      then have "?b ^ (length ?ps - 2) \<le> num" using True by simp
      then have "Suc (length ?ps - 2) \<le> length (digits_of ?b num)"
        using b(1) num(1) by (intro length_le_digits)
      then have "length ?ps \<le> Suc (length (digits_of ?b num))" using l2 by linarith
      then have "?b ^ length ?ps \<le> ?b ^ Suc (length (digits_of ?b num))"
        using b(1) by (intro power_increasing) simp_all
      then have us: "\<not> is_signed T" using over less.prems(3) by (auto simp: overflows_def)
      have app: "lr2_append_helper_data T P = Inr (False, P)"
        using lr2_append_correct [OF T less.prems(1)] over us by simp
      have run: "lr2_grow T P num = Inr (Some (lr2_top_or_below P num), ?P2)"
        using True lb1 app by (simp add: lr2_grow.simps [of T P num])
      have "lr2_ok T ?P2"
        using cache_append(5) [OF T c b(1) over us] less.prems by (simp add: lr2_ok_def)
      then show ?thesis using run True by (simp add: lr2_same_def lr2_top_or_below_def)
    qed
  qed
qed


lemma lr2_scan_correct:
  assumes c: "cache_ok T (lr2_base P) r (lr2_powers P)" and b: "2 \<le> lr2_base P"
    and m: "m + 1 < length (lr2_powers P)" "lr2_base P ^ (m - 1) \<le> num" "num < lr2_base P ^ m" "1 \<le> m"
  shows "even i \<Longrightarrow> i \<le> m + 1 \<Longrightarrow> lr2_scan P num i = Inr (if even m then m else m + 1)"
proof (induction "m + 1 - i" arbitrary: i rule: less_induct)
  case less
  have il: "i < length (lr2_powers P)" using less.prems m by simp
  have pw: "lr2_powers P ! i = lr2_base P ^ i" using cache_nth [OF c il] .
  show ?case
  proof (cases "i < m")
    case True
    then have "lr2_base P ^ i \<le> lr2_base P ^ (m - 1)" using b by (intro power_increasing) simp_all
    then have le: "lr2_powers P ! i \<le> num" using m pw by simp
    have "i + 2 \<le> m + 1" using True by simp
    then have "lr2_scan P num (i + 2) = Inr (if even m then m else m + 1)"
      using less.prems True by (intro less.hyps) simp_all
    then show ?thesis using il le by (simp add: lr2_scan.simps [of P num i])
  next
    case False
    then have "lr2_base P ^ m \<le> lr2_base P ^ i" using b by (intro power_increasing) simp_all
    then have gt: "\<not> lr2_powers P ! i \<le> num" using m pw by simp
    have "i = m \<or> i = Suc m" using False less.prems by auto
    then have "i = (if even m then m else m + 1)"
      using less.prems by auto
    moreover have "lr2_scan P num i = Inr i" using il gt by (simp add: lr2_scan.simps [of P num i])
    ultimately show ?thesis by (metis (full_types))
  qed
qed

lemma lr2_get_max_power_ptr_correct:
  assumes T: "supported_numtype T" and ok: "lr2_ok T P" and num: "1 \<le> num" "num \<le> max_val T"
    and no: "\<not> overflows T (lr2_base P) (Suc (length (digits_of (lr2_base P) num)))"
  shows "\<exists>P'. lr2_get_max_power_ptr T P num = Inr (int (length (digits_of (lr2_base P) num)) - 2, P') \<and>
        lr2_ok T P' \<and> lr2_same P' P \<and>
        length (digits_of (lr2_base P) num) \<le> length (lr2_powers P') \<and>
        length (lr2_powers P) \<le> length (lr2_powers P') \<and>
        (lr2_reached_max_power P \<longrightarrow> P' = P) \<and>
        (\<not> lr2_reached_max_power P' \<longrightarrow> num < lr2_powers P' ! (length (lr2_powers P') - 2))"
proof -
  let ?b = "lr2_base P" and ?m = "length (digits_of (lr2_base P) num)"
  have b: "2 \<le> ?b" using ok by (simp add: lr2_ok_def)
  have dc: "?b ^ (?m - 1) \<le> num" "num < ?b ^ ?m" using digits_count [OF b num(1)] by simp_all
  have m1: "1 \<le> ?m" using digits_of_nonempty [of ?b num] by (simp add: Suc_le_eq)
  have top: "lr2_top_or_below Q num = int ?m - 2 \<and> ?m \<le> length (lr2_powers Q)"
    if "lr2_ok T Q" "lr2_base Q = ?b" "lr2_reached_max_power Q"
       "lr2_powers Q ! (length (lr2_powers Q) - 2) \<le> num" for Q
  proof -
    let ?L = "length (lr2_powers Q)"
    have c: "cache_ok T ?b True (lr2_powers Q)" and l2: "2 \<le> ?L"
      using that by (simp_all add: lr2_ok_def)
    have hi: "num < ?b ^ ?L" using c num by (simp add: cache_ok_def)
    have "?L - 2 < ?L" using l2 by simp
    then have lo2: "?b ^ (?L - 2) \<le> num" using cache_nth [OF c, of "?L - 2"] that by simp
    have L1: "Suc (?L - 1) = ?L" "Suc (?L - 2) = ?L - 1" using l2 by simp_all
    show ?thesis
    proof (cases "last (lr2_powers Q) \<le> num")
      case True
      then have "?b ^ (?L - 1) \<le> num" using cache_last [OF c] by simp
      moreover have "num < ?b ^ Suc (?L - 1)" using hi L1 by simp
      ultimately have "?m = Suc (?L - 1)" using b by (intro digits_count_unique)
      then show ?thesis using True L1 by (simp add: lr2_top_or_below_def)
    next
      case False
      then have "num < ?b ^ Suc (?L - 2)" using cache_last [OF c] L1 by simp
      then have "?m = Suc (?L - 2)" using b lo2 by (intro digits_count_unique)
      then show ?thesis using False L1 l2 by (simp add: lr2_top_or_below_def)
    qed
  qed
  have find: "lr2_find_power Q num = Inr (int ?m - 2, Q) \<and> ?m \<le> length (lr2_powers Q)"
    if "lr2_ok T Q" "lr2_base Q = ?b" "num < lr2_powers Q ! (length (lr2_powers Q) - 2)" for Q
  proof -
    let ?L = "length (lr2_powers Q)" and ?i = "if even ?m then ?m else ?m + 1"
    have c: "cache_ok T (lr2_base Q) (lr2_reached_max_power Q) (lr2_powers Q)" and l2: "2 \<le> ?L"
      using that by (simp_all add: lr2_ok_def)
    have "?L - 2 < ?L" using l2 by simp
    then have "num < ?b ^ (?L - 2)" using cache_nth [OF c, of "?L - 2"] that by simp
    then have "?b ^ (?m - 1) < ?b ^ (?L - 2)" using dc by simp
    then have "?m - 1 < ?L - 2" using b by (simp only: power_strict_increasing_iff)
    then have ml: "?m + 1 < ?L" by simp
    have sc: "lr2_scan Q num 0 = Inr ?i"
      using c b ml dc m1 that
      by (intro lr2_scan_correct [where T = T and r = "lr2_reached_max_power Q"]) simp_all
    have i0: "?i \<noteq> 0" using m1 by auto
    have pm1: "lr2_powers Q ! (?m - 1) = ?b ^ (?m - 1)" "lr2_powers Q ! ?m = ?b ^ ?m"
      using cache_nth [OF c, of "?m - 1"] cache_nth [OF c, of ?m] ml that by simp_all
    have j: "(if lr2_powers Q ! (?i - 1) \<le> num then ?i else ?i - 1) = ?m"
      using pm1 dc by (cases "even ?m") simp_all
    show ?thesis using sc i0 j pm1 dc ml
      by (simp add: lr2_find_power_def Let_def del: One_nat_def)
  qed
  show ?thesis
  proof (cases "lr2_reached_max_power P")
    case True
    have l2: "2 \<le> length (lr2_powers P)" using ok by (simp add: lr2_ok_def)
    then have lb1: "lr2_last_but_one P = Inr (lr2_powers P ! (length (lr2_powers P) - 2))"
      by (simp add: lr2_last_but_one_def)
    show ?thesis
    proof (cases "lr2_powers P ! (length (lr2_powers P) - 2) \<le> num")
      case le: True
      then show ?thesis using True lb1 ok top [OF ok refl True le]
        by (simp add: lr2_get_max_power_ptr_def lr2_same_def)
    next
      case False
      then show ?thesis using True lb1 ok find [of P]
        by (simp add: lr2_get_max_power_ptr_def lr2_same_def)
    qed
  next
    case False
    obtain r P' where g: "lr2_grow T P num = Inr (r, P')" and ok': "lr2_ok T P'"
      and same: "lr2_same P' P"
      and mono: "length (lr2_powers P) \<le> length (lr2_powers P')"
      and r: "case r of
           None \<Rightarrow> num < lr2_powers P' ! (length (lr2_powers P') - 2) \<and> \<not> lr2_reached_max_power P'
         | Some k \<Rightarrow> k = lr2_top_or_below P' num \<and>
                     lr2_powers P' ! (length (lr2_powers P') - 2) \<le> num \<and>
                     lr2_reached_max_power P'"
      using lr2_grow_correct [OF T num ok False no] by blast
    have sb: "lr2_base P' = ?b" using same by (simp add: lr2_same_def)
    show ?thesis
    proof (cases r)
      case None
      then show ?thesis using False g ok' same sb r mono find [of P']
        by (simp add: lr2_get_max_power_ptr_def)
    next
      case (Some k)
      then show ?thesis using False g ok' same sb r mono top [of P']
        by (simp add: lr2_get_max_power_ptr_def)
    qed
  qed
qed


lemma div_power_mod_base: "0 < (b::int) \<Longrightarrow> (n div b ^ k) mod b = (n mod b ^ Suc k) div b ^ k"
proof -
  assume b: "0 < b"
  have "n mod (b ^ k * b) = b ^ k * (n div b ^ k mod b) + n mod b ^ k"
    using b by (simp add: zmod_zmult2_eq)
  then have "(n mod b ^ Suc k) div b ^ k = (b ^ k * (n div b ^ k mod b) + n mod b ^ k) div b ^ k"
    by (simp add: mult.commute)
  also have "\<dots> = n div b ^ k mod b" using b by simp
  finally show ?thesis by simp
qed

lemma fixed_digits_two:
  assumes "0 < b"
  shows "fixed_digits b (Suc (Suc k)) n =
     (n div b ^ k) div b # (n div b ^ k) mod b # fixed_digits b k (n mod b ^ k)"
proof -
  have "n div (b ^ k * b) = n div b ^ k div b" using assms by (intro zdiv_zmult2_eq) simp
  then have "n div b ^ Suc k = (n div b ^ k) div b" by (simp add: mult.commute)
  moreover have "(n mod b ^ Suc k) div b ^ k = (n div b ^ k) mod b"
    using div_power_mod_base [OF assms, of n k] by simp
  moreover have "(n mod b ^ Suc k) mod b ^ k = n mod b ^ k"
    by (simp add: mod_mod_cancel)
  ultimately show ?thesis by simp
qed

lemma lr2_print_last_correct:
  assumes T: "supported_numtype T" and ok: "lr2_ok T P" and b: "b = lr2_base P"
    and k: "k = 0 \<or> k = - 1" and num: "0 \<le> num" "num < b ^ nat (k + 2)"
  shows "outcome (alphabet_ok lr2_BASE_MAX b (lr2_alphabet P))
       (out @ text_of (lr2_alphabet P) (fixed_digits b (nat (k + 2)) num))
       (lr2_print_last T P k num out)"
proof -
  let ?ok = "alphabet_ok lr2_BASE_MAX b (lr2_alphabet P)"
  let ?sq = "lr2_BASE_MAX * lr2_BASE_MAX * 2"
  have b2: "2 \<le> b" "b \<le> 17" and sq: "lr2_base_sqr P = b * b"
    and sok: "sqr_ok b (lr2_alphabet P) (lr2_alphabet_sqr P)"
    using ok b by (simp_all add: lr2_ok_def lr2_BASE_MAX_def)
  from k show ?thesis
  proof
    assume k0: "k = 0"
    then have n2: "num < b * b" using num by (simp add: power2_eq_square numeral_2_eq_2)
    have "b * b \<le> 17 * 17" using b2 by (intro mult_mono) simp_all
    then have small: "2 * num + 1 \<le> 2147483647" using n2 by simp
    then have "2 * num \<le> max_val T" "2 * num + 1 \<le> max_val T" using max_val_lower [OF T] by simp_all
    then have "num_result T (2 * num) = Inr (2 * num)"
      "num_result T (2 * num + 1) = Inr (2 * num + 1)"
      using num supported_bits [OF T] by (intro num_result_id; simp)+
    then have w: "num_result T (num * 2) = Inr (2 * num)"
      "num_result T (2 * num + 1) = Inr (2 * num + 1)"
      by (simp_all add: mult.commute)
    have sqcap: "int ?sq = 2 * int lr2_BASE_MAX * int lr2_BASE_MAX" by simp
    have bc: "0 < b" "b \<le> int lr2_BASE_MAX" using b2 by (simp_all add: lr2_BASE_MAX_def)
    have rd0: "outcome ?ok (the (lr2_alphabet P (nat (num div b)))) (read_char Alphabet_Sqr ?sq (lr2_alphabet_sqr P) (2 * num))"
      and rd1: "outcome ?ok (the (lr2_alphabet P (nat (num mod b)))) (read_char Alphabet_Sqr ?sq (lr2_alphabet_sqr P) (2 * num + 1))"
      using read_sqr_cases [OF sok bc num(1) n2 sqcap] by simp_all
    have fd: "fixed_digits b (nat (k + 2)) num = [num div b, num mod b]"
      using k0 fixed_digits_two [OF bc(1), of 0 num] by (simp add: numeral_2_eq_2)
    show ?thesis
    proof (cases "read_char Alphabet_Sqr ?sq (lr2_alphabet_sqr P) (2 * num)")
      case (Inl e)
      then show ?thesis using rd0 k0 num n2 sq w by (simp add: lr2_print_last_def)
    next
      case c0: (Inr c0)
      show ?thesis
      proof (cases "read_char Alphabet_Sqr ?sq (lr2_alphabet_sqr P) (2 * num + 1)")
        case (Inl e)
        then show ?thesis using rd1 c0 k0 num n2 sq w by (simp add: lr2_print_last_def)
      next
        case c1: (Inr c1)
        then show ?thesis using rd0 rd1 c0 k0 num n2 sq w fd
          by (simp add: lr2_print_last_def text_of_def)
      qed
    qed
  next
    assume k1: "k = - 1"
    then have n1: "num < b" using num by simp
    have rd: "outcome ?ok (the (lr2_alphabet P (nat num))) (read_char Alphabet lr2_BASE_MAX (lr2_alphabet P) num)"
      using num n1 by (intro read_char_cases) simp_all
    show ?thesis using rd k1 num n1 b
      by (cases "read_char Alphabet lr2_BASE_MAX (lr2_alphabet P) num")
         (simp_all add: lr2_print_last_def text_of_def)
  qed
qed

lemma lr2_print_loop_correct:
  assumes T: "supported_numtype T" and ok: "lr2_ok T P" and b: "b = lr2_base P"
  shows "k < int (length (lr2_powers P)) \<Longrightarrow> - 1 \<le> k \<Longrightarrow> 0 \<le> num \<Longrightarrow>
     num < b ^ nat (k + 2) \<Longrightarrow> num \<le> max_val T \<Longrightarrow>
     outcome (alphabet_ok lr2_BASE_MAX b (lr2_alphabet P))
       (out @ text_of (lr2_alphabet P) (fixed_digits b (nat (k + 2)) num))
       (case lr2_print_loop T P k num out of
          Inl e \<Rightarrow> Inl e
        | Inr (k', num', out') \<Rightarrow> lr2_print_last T P k' num' out')"
proof (induction "nat (k + 2)" arbitrary: k num out rule: less_induct)
  case less
  let ?ok = "alphabet_ok lr2_BASE_MAX b (lr2_alphabet P)"
  let ?sq = "lr2_BASE_MAX * lr2_BASE_MAX * 2"
  have c: "cache_ok T b (lr2_reached_max_power P) (lr2_powers P)"
    and b2: "2 \<le> b" "b \<le> 17" and sq: "lr2_base_sqr P = b * b"
    and sok: "sqr_ok b (lr2_alphabet P) (lr2_alphabet_sqr P)"
    using ok b by (simp_all add: lr2_ok_def lr2_BASE_MAX_def)
  show ?case
  proof (cases "1 \<le> k")
    case False
    then have k: "k = 0 \<or> k = - 1" using less.prems by auto
    have "lr2_print_loop T P k num out = Inr (k, num, out)"
      using False by (simp add: lr2_print_loop.simps [of T P k])
    then show ?thesis using lr2_print_last_correct [OF T ok b k less.prems(3,4)] by simp
  next
    case True
    obtain n where n: "nat k = n" "nat (k + 2) = Suc (Suc n)"
      using True by (simp add: nat_add_distrib)
    have kl: "n < length (lr2_powers P)" using less.prems n True by simp
    have pw: "lr2_powers P ! nat k = b ^ n" using cache_nth [OF c kl] n by simp
    have pos: "0 < b ^ n" "0 < b" using b2 by simp_all
    let ?q = "num div b ^ n"
    have "num < b * b * b ^ n" using less.prems n by simp
    then have q: "0 \<le> ?q" "?q < b * b"
      using less.prems pos by (simp_all add: pos_imp_zdiv_nonneg_iff int_div_less_iff)
    have "b * b \<le> 17 * 17" using b2 by (intro mult_mono) simp_all
    then have qs: "?q \<le> 32767" using q by simp
    have dv: "c_div num (lr2_powers P ! nat k) = Inr ?q"
      using pw pos less.prems by (simp add: c_div_def sdiv_nonneg)
    have ts: "to_short ?q = ?q" using q qs by (intro to_short_id) simp_all
    have dm: "?q * b ^ n + num mod b ^ n = num" by (rule div_mult_mod_eq)
    have md: "0 \<le> num mod b ^ n" "num mod b ^ n < b ^ n" using pos by simp_all
    have "0 \<le> ?q * b ^ n" using q pos by simp
    then have prod: "0 \<le> ?q * b ^ n" "?q * b ^ n \<le> num" "num - ?q * b ^ n = num mod b ^ n"
      using dm md by linarith+
    have mle: "num mod b ^ n \<le> num" using md prod by linarith
    have "?q * b ^ n \<le> max_val T" using prod less.prems by linarith
    then have "num_result T (?q * b ^ n) = Inr (?q * b ^ n)"
      using prod supported_bits [OF T] by (intro num_result_id) simp_all
    then have r1: "num_result T (to_short ?q * (lr2_powers P ! nat k)) = Inr (?q * b ^ n)"
      using ts pw by simp
    have "num mod b ^ n \<le> max_val T" using mle less.prems by linarith
    then have "num_result T (num mod b ^ n) = Inr (num mod b ^ n)"
      using md supported_bits [OF T] by (intro num_result_id) simp_all
    then have r2: "num_result T (num - ?q * b ^ n) = Inr (num mod b ^ n)" using prod by simp
    have sqcap: "int ?sq = 2 * int lr2_BASE_MAX * int lr2_BASE_MAX" by simp
    have bc: "0 < b" "b \<le> int lr2_BASE_MAX" using b2 by (simp_all add: lr2_BASE_MAX_def)
    let ?c0 = "the (lr2_alphabet P (nat (?q div b)))" and ?c1 = "the (lr2_alphabet P (nat (?q mod b)))"
    have rd0: "outcome ?ok ?c0 (read_char Alphabet_Sqr ?sq (lr2_alphabet_sqr P) (?q * 2))"
      and rd1: "outcome ?ok ?c1 (read_char Alphabet_Sqr ?sq (lr2_alphabet_sqr P) (?q * 2 + 1))"
      using read_sqr_cases [OF sok bc q sqcap] by (simp_all add: mult.commute)
    show ?thesis
    proof (cases "read_char Alphabet_Sqr ?sq (lr2_alphabet_sqr P) (?q * 2)")
      case (Inl e)
      then show ?thesis using rd0 True less.prems dv ts q sq
        by (simp add: lr2_print_loop.simps [of T P k] Let_def)
    next
      case c0: (Inr c0)
      show ?thesis
      proof (cases "read_char Alphabet_Sqr ?sq (lr2_alphabet_sqr P) (?q * 2 + 1)")
        case (Inl e)
        then show ?thesis using rd1 c0 True less.prems dv ts q sq
          by (simp add: lr2_print_loop.simps [of T P k] Let_def)
      next
        case c1: (Inr c1)
        have cs: "c0 = ?c0" "c1 = ?c1" using rd0 rd1 c0 c1 by simp_all
        have step: "lr2_print_loop T P k num out =
            lr2_print_loop T P (k - 2) (num mod b ^ n) (out @ [?c0, ?c1])"
          using c0 c1 cs True less.prems dv ts q sq r1 r2
          by (simp add: lr2_print_loop.simps [of T P k] Let_def)
        have n': "nat (k - 2 + 2) = n" using n True by simp
        have "outcome ?ok
           ((out @ [?c0, ?c1]) @ text_of (lr2_alphabet P) (fixed_digits b (nat (k - 2 + 2)) (num mod b ^ n)))
           (case lr2_print_loop T P (k - 2) (num mod b ^ n) (out @ [?c0, ?c1]) of
              Inl e \<Rightarrow> Inl e
            | Inr (k', num', out') \<Rightarrow> lr2_print_last T P k' num' out')"
          using less.prems md mle n n' True by (intro less.hyps) simp_all
        moreover have "(out @ [?c0, ?c1]) @ text_of (lr2_alphabet P) (fixed_digits b (nat (k - 2 + 2)) (num mod b ^ n))
           = out @ text_of (lr2_alphabet P) (fixed_digits b (nat (k + 2)) num)"
          using n n' fixed_digits_two [OF pos(2), of n num] by (simp add: text_of_def)
        ultimately show ?thesis using step by simp
      qed
    qed
  qed
qed

lemma lr2_print_to_out_iter_correct:
  assumes T: "supported_numtype T" and ok: "lr2_ok T P" and x: "0 \<le> x" "x \<le> max_val T"
    and no: "\<not> overflows T (lr2_base P) (Suc (length (digits_of (lr2_base P) x)))"
  shows "\<exists>P'. lr2_ok T P' \<and> lr2_same P' P \<and>
     (lr2_reached_max_power P \<longrightarrow> P' = P) \<and>
     length (lr2_powers P) \<le> length (lr2_powers P') \<and>
     (x \<noteq> 0 \<longrightarrow> \<not> lr2_reached_max_power P' \<longrightarrow>
        x < lr2_powers P' ! (length (lr2_powers P') - 2)) \<and>
     outcome (alphabet_ok lr2_BASE_MAX (lr2_base P) (lr2_alphabet P))
       (text_of (lr2_alphabet P) (digits_of (lr2_base P) x), P')
       (lr2_print_to_out_iter T P x)"
proof (cases "x = 0")
  case True
  have b: "2 \<le> lr2_base P" using ok by (simp add: lr2_ok_def)
  have "outcome (alphabet_ok lr2_BASE_MAX (lr2_base P) (lr2_alphabet P)) (the (lr2_alphabet P (nat 0)))
      (read_char Alphabet lr2_BASE_MAX (lr2_alphabet P) 0)"
    using b by (intro read_char_cases) simp_all
  then have "outcome (alphabet_ok lr2_BASE_MAX (lr2_base P) (lr2_alphabet P))
       (text_of (lr2_alphabet P) (digits_of (lr2_base P) x), P)
       (lr2_print_to_out_iter T P x)"
    using True b
    by (cases "read_char Alphabet lr2_BASE_MAX (lr2_alphabet P) 0")
       (simp_all add: lr2_print_to_out_iter_def digits_of_small text_of_def)
  then show ?thesis using ok True by (auto simp: lr2_same_def)
next
  case False
  let ?b = "lr2_base P" and ?m = "length (digits_of (lr2_base P) x)"
  have b: "2 \<le> ?b" using ok by (simp add: lr2_ok_def)
  have x1: "1 \<le> x" using False x by simp
  obtain P' where g: "lr2_get_max_power_ptr T P x = Inr (int ?m - 2, P')"
    and ok': "lr2_ok T P'" and same: "lr2_same P' P"
    and ml: "?m \<le> length (lr2_powers P')" and unchanged: "lr2_reached_max_power P \<longrightarrow> P' = P"
    and mono: "length (lr2_powers P) \<le> length (lr2_powers P')"
    and cover: "\<not> lr2_reached_max_power P' \<longrightarrow> x < lr2_powers P' ! (length (lr2_powers P') - 2)"
    using lr2_get_max_power_ptr_correct [OF T ok x1 x(2) no] by blast
  have sb: "lr2_base P' = ?b" "lr2_alphabet P' = lr2_alphabet P" using same by (simp_all add: lr2_same_def)
  have m1: "1 \<le> ?m" using digits_of_nonempty [of ?b x] by (simp add: Suc_le_eq)
  have "x < ?b ^ ?m" using digits_count [OF b x1] by simp
  then have "outcome (alphabet_ok lr2_BASE_MAX ?b (lr2_alphabet P'))
       ([] @ text_of (lr2_alphabet P') (fixed_digits ?b (nat (int ?m - 2 + 2)) x))
       (case lr2_print_loop T P' (int ?m - 2) x [] of
          Inl e \<Rightarrow> Inl e
        | Inr (k', num', out') \<Rightarrow> lr2_print_last T P' k' num' out')"
    using ml m1 x sb by (intro lr2_print_loop_correct [OF T ok']) simp_all
  then have lp: "outcome (alphabet_ok lr2_BASE_MAX ?b (lr2_alphabet P))
       (text_of (lr2_alphabet P) (digits_of ?b x))
       (case lr2_print_loop T P' (int ?m - 2) x [] of
          Inl e \<Rightarrow> Inl e
        | Inr (k', num', out') \<Rightarrow> lr2_print_last T P' k' num' out')"
    using sb digits_of_fixed_count [OF b x1] by simp
  have "outcome (alphabet_ok lr2_BASE_MAX ?b (lr2_alphabet P))
       (text_of (lr2_alphabet P) (digits_of ?b x), P')
       (lr2_print_to_out_iter T P x)"
  proof (cases "lr2_print_loop T P' (int ?m - 2) x []")
    case (Inl e)
    then show ?thesis using False g lp by (simp add: lr2_print_to_out_iter_def)
  next
    case (Inr r)
    obtain k' num' out' where r: "r = (k', num', out')" by (cases r) auto
    show ?thesis using False g lp Inr r
      by (cases "lr2_print_last T P' k' num' out'") (simp_all add: lr2_print_to_out_iter_def)
  qed
  then show ?thesis using ok' same unchanged mono cover by blast
qed


lemma store_chars_lookup:
  "store_chars i cs a k = (if i \<le> k \<and> k < i + length cs then Some (cs ! (k - i)) else a k)"
proof (induction cs arbitrary: i a)
  case Nil
  then show ?case by auto
next
  case (Cons c cs)
  have IH: "store_chars (Suc i) cs (a(i \<mapsto> c)) k =
      (if Suc i \<le> k \<and> k < Suc i + length cs then Some (cs ! (k - Suc i)) else (a(i \<mapsto> c)) k)"
    by (rule Cons.IH)
  show ?case
  proof (cases "k = i")
    case True
    then show ?thesis using IH by simp
  next
    case False
    then show ?thesis using IH by (auto simp: nth_Cons' Suc_diff_le)
  qed
qed

lemma attach_correct:
  "0 \<le> L \<Longrightarrow> b \<le> int cap \<or> L + int (length chs) \<le> int cap \<Longrightarrow>
   attach cap b chs (L, a) =
     Inr (L + int (min (length chs) (nat (b - L))),
          store_chars (nat L) (take (min (length chs) (nat (b - L))) chs) a)"
proof (induction chs arbitrary: L a)
  case Nil
  then show ?case by simp
next
  case (Cons ch chs)
  show ?case
  proof (cases "L < b")
    case False
    then show ?thesis by simp
  next
    case True
    have inb: "\<not> (L < 0 \<or> int cap \<le> L)" using True Cons.prems by auto
    have n: "nat (b - L) = Suc (nat (b - (L + 1)))" using True by simp
    have "attach cap b chs (L + 1, a(nat L \<mapsto> ch)) =
       Inr (L + 1 + int (min (length chs) (nat (b - (L + 1)))),
          store_chars (nat (L + 1)) (take (min (length chs) (nat (b - (L + 1)))) chs) (a(nat L \<mapsto> ch)))"
      using Cons.prems by (intro Cons.IH) auto
    moreover have "nat (L + 1) = Suc (nat L)" using Cons.prems by simp
    ultimately show ?thesis using True inb n by simp
  qed
qed

lemma default_alphabet_correct:
  assumes b: "0 \<le> b" "b \<le> 36" "b \<le> int cap"
  shows "(case attach cap b decimal_digits (0, a) of
            Inl e \<Rightarrow> Inl e
          | Inr La \<Rightarrow> attach cap b lower_letters La) = Inr (b, default_chars b a)"
proof (cases "b \<le> 10")
  case True
  let ?a1 = "store_chars 0 (take (nat b) decimal_digits) a"
  have len: "length decimal_digits = 10" by (simp add: decimal_digits_def)
  have m: "min (length decimal_digits) (nat (b - 0)) = nat b" using True len by simp
  have a1: "attach cap b decimal_digits (0, a) = Inr (b, ?a1)"
    using attach_correct [of 0 b cap decimal_digits a] b unfolding m by simp
  have a2: "attach cap b lower_letters (b, ?a1) = Inr (b, ?a1)"
    using attach_correct [of b b cap lower_letters ?a1] b by simp
  have "?a1 k = default_chars b a k" for k
    using True b len
    by (simp add: store_chars_lookup default_chars_def default_alphabet_def nth_append
        zless_nat_eq_int_zless)
  then have "?a1 = default_chars b a" by (rule ext)
  then show ?thesis using a1 a2 by simp
next
  case False
  let ?n = "nat (b - 10)"
  let ?a1 = "store_chars 0 decimal_digits a"
  let ?a2 = "store_chars 10 (take ?n lower_letters) ?a1"
  have len: "length decimal_digits = 10" "length lower_letters = 26"
    by (simp_all add: decimal_digits_def lower_letters_def)
  have m1: "min (length decimal_digits) (nat (b - 0)) = 10" using False len by simp
  have m2: "min (length lower_letters) (nat (b - 10)) = ?n" using b len by simp
  have a1: "attach cap b decimal_digits (0, a) = Inr (10, ?a1)"
    using attach_correct [of 0 b cap decimal_digits a] b len unfolding m1 by simp
  have a2: "attach cap b lower_letters (10, ?a1) = Inr (b, ?a2)"
    using attach_correct [of 10 b cap lower_letters ?a1] b False unfolding m2 by simp
  have "?a2 k = default_chars b a k" for k
  proof (cases "k < 10")
    case True
    then show ?thesis using False len
      by (simp add: store_chars_lookup default_chars_def default_alphabet_def nth_append)
  next
    case k: False
    show ?thesis
    proof (cases "int k < b")
      case True
      then have "k - 10 < ?n" "k < 10 + ?n" using k by simp_all
      then show ?thesis using True k len m2
        by (simp add: store_chars_lookup default_chars_def default_alphabet_def nth_append)
    next
      case big: False
      then have "\<not> k < 10 + ?n" using False by simp
      then show ?thesis using big k len m2
        by (simp add: store_chars_lookup default_chars_def)
    qed
  qed
  then have "?a2 = default_chars b a" by (rule ext)
  then show ?thesis using a1 a2 by simp
qed

lemma default_chars_ok: "0 \<le> b \<Longrightarrow> b \<le> int cap \<Longrightarrow> alphabet_ok cap b (default_chars b a)"
proof -
  assume b: "0 \<le> b" "b \<le> int cap"
  have "default_chars b a d \<noteq> None" if "d < nat b" for d
  proof -
    have "int d < b" using that by linarith
    then show ?thesis by (simp add: default_chars_def)
  qed
  then show ?thesis using b by (simp add: alphabet_ok_def)
qed

lemma text_of_default:
  assumes "\<forall>d\<in>set ds. 0 \<le> d \<and> d < b"
  shows "text_of (default_chars b a) ds = map (\<lambda>d. default_alphabet ! nat d) ds"
proof -
  have "the (default_chars b a (nat d)) = default_alphabet ! nat d" if "d \<in> set ds" for d
  proof -
    have "int (nat d) < b" using that assms by auto
    then show ?thesis by (simp only: default_chars_def if_True option.sel)
  qed
  then show ?thesis unfolding text_of_def by (intro map_cong) simp_all
qed

lemma digits_of_range: "2 \<le> b \<Longrightarrow> 0 \<le> n \<Longrightarrow> d \<in> set (digits_of b n) \<Longrightarrow> 0 \<le> d \<and> d < b"
proof (induction b n rule: digits_of.induct)
  case (1 b n)
  show ?case
  proof (cases "n < b")
    case True
    then show ?thesis using "1.prems" by (simp add: digits_of_small)
  next
    case False
    have nb: "0 \<le> n div b" using "1.prems" by (simp add: pos_imp_zdiv_nonneg_iff)
    have "set (digits_of b n) = set (digits_of b (n div b)) \<union> {n mod b}"
      using False "1.prems"(1) by (simp add: digits_of_step)
    with "1.prems"(3) have "d \<in> set (digits_of b (n div b)) \<or> d = n mod b"
      by blast
    then show ?thesis
    proof
      assume "d \<in> set (digits_of b (n div b))"
      then show ?thesis using False "1.prems"(1) nb by (intro "1.IH") simp_all
    next
      assume "d = n mod b"
      then show ?thesis using "1.prems"(1) by simp
    qed
  qed
qed



lemma length_default_alphabet: "length default_alphabet = 36"
  by (simp add: default_alphabet_def decimal_digits_def lower_letters_def)




lemma text_of_default_digits:
  assumes "2 \<le> b" "0 \<le> v"
  shows "text_of (default_chars b a) (digits_of b v) = default_text (digits_of b v)"
  unfolding default_text_def using digits_of_range [OF assms] by (intro text_of_default) blast

lemma lr_init_loop_correct:
  assumes T: "supported_numtype T"
  shows "lr_ok T P \<Longrightarrow> \<not> lr_reached_max_power P \<Longrightarrow>
    (if overflows T (lr_base P) (length (lr_powers P) + n - 1)
     then lr_init_loop T n P = Inl Signed_Overflow
     else \<exists>P'. lr_init_loop T n P = Inr P' \<and> lr_ok T P' \<and> \<not> lr_reached_max_power P' \<and>
       lr_base P' = lr_base P \<and> lr_alphabet P' = lr_alphabet P \<and>
       (lr_base P ^ (length (lr_powers P) + n - 1) \<le> max_val T \<longrightarrow>
          length (lr_powers P') = length (lr_powers P) + n))"
proof (induction n arbitrary: P)
  case 0
  have "lr_base P ^ (length (lr_powers P) - 1) \<le> max_val T"
    using 0 by (simp add: lr_ok_def cache_ok_def)
  then show ?case using 0 by (simp add: overflows_def)
next
  case (Suc n)
  let ?b = "lr_base P" and ?ps = "lr_powers P"
  have c: "cache_ok T ?b (lr_reached_max_power P) ?ps" and b: "2 \<le> ?b" "?b \<le> 32767"
    using Suc.prems by (simp_all add: lr_ok_def)
  have mono: "?b ^ length ?ps \<le> ?b ^ (length ?ps + Suc n - 1)"
    using b by (intro power_increasing) simp_all
  show ?case
  proof (cases "?b ^ length ?ps \<le> max_val T")
    case True
    let ?P1 = "P\<lparr>lr_powers := ?ps @ [?b ^ length ?ps]\<rparr>"
    have app: "lr_append_helper_data T P = Inr (True, ?P1)"
      using lr_append_correct [OF T Suc.prems(1)] True by simp
    have ok1: "lr_ok T ?P1"
      using cache_append(4) [OF T c b(1) True] b Suc.prems(2) by (simp add: lr_ok_def)
    have "if overflows T (lr_base ?P1) (length (lr_powers ?P1) + n - 1)
     then lr_init_loop T n ?P1 = Inl Signed_Overflow
     else \<exists>P'. lr_init_loop T n ?P1 = Inr P' \<and> lr_ok T P' \<and> \<not> lr_reached_max_power P' \<and>
       lr_base P' = lr_base ?P1 \<and> lr_alphabet P' = lr_alphabet ?P1 \<and>
       (lr_base ?P1 ^ (length (lr_powers ?P1) + n - 1) \<le> max_val T \<longrightarrow>
          length (lr_powers P') = length (lr_powers ?P1) + n)"
      using ok1 Suc.prems(2) by (intro Suc.IH) simp_all
    then show ?thesis using app by (auto split: if_splits)
  next
    case False
    have big: "\<not> ?b ^ (length ?ps + Suc n - 1) \<le> max_val T" using mono False by linarith
    show ?thesis
    proof (cases "is_signed T")
      case True
      have app: "lr_append_helper_data T P = Inl Signed_Overflow"
        using lr_append_correct [OF T Suc.prems(1)] False True by simp
      then show ?thesis using True big by (simp add: overflows_def)
    next
      case us: False
      have app: "lr_append_helper_data T P = Inr (False, P)"
        using lr_append_correct [OF T Suc.prems(1)] False us by simp
      have "if overflows T (lr_base P) (length (lr_powers P) + n - 1)
       then lr_init_loop T n P = Inl Signed_Overflow
       else \<exists>P'. lr_init_loop T n P = Inr P' \<and> lr_ok T P' \<and> \<not> lr_reached_max_power P' \<and>
         lr_base P' = lr_base P \<and> lr_alphabet P' = lr_alphabet P \<and>
         (lr_base P ^ (length (lr_powers P) + n - 1) \<le> max_val T \<longrightarrow>
            length (lr_powers P') = length (lr_powers P) + n)"
        using Suc.prems by (intro Suc.IH)
      then show ?thesis using app us big by (auto simp: overflows_def)
    qed
  qed
qed

lemma lr_set_base_correct:
  assumes T: "supported_numtype T" and b: "2 \<le> b" "b \<le> 32767"
  shows "if overflows T b 3 then lr_set_base T P b = Inl Signed_Overflow
     else \<exists>P'. lr_set_base T P b = Inr P' \<and> lr_ok T P' \<and> \<not> lr_reached_max_power P' \<and>
       lr_base P' = b \<and> lr_alphabet P' = lr_alphabet P \<and>
       (b ^ 3 \<le> max_val T \<longrightarrow> length (lr_powers P') = 4)"
proof -
  let ?P0 = "P\<lparr>lr_base := b, lr_reached_max_power := False, lr_powers := [1]\<rparr>"
  have "1 \<le> max_val T" using max_val_lower [OF T] by simp
  then have ok0: "lr_ok T ?P0" using b
    by (simp add: lr_ok_def cache_ok_def powers_table_def)
  have "if overflows T (lr_base ?P0) (length (lr_powers ?P0) + 3 - 1)
     then lr_init_loop T 3 ?P0 = Inl Signed_Overflow
     else \<exists>P'. lr_init_loop T 3 ?P0 = Inr P' \<and> lr_ok T P' \<and> \<not> lr_reached_max_power P' \<and>
       lr_base P' = lr_base ?P0 \<and> lr_alphabet P' = lr_alphabet ?P0 \<and>
       (lr_base ?P0 ^ (length (lr_powers ?P0) + 3 - 1) \<le> max_val T \<longrightarrow>
          length (lr_powers P') = length (lr_powers ?P0) + 3)"
    using ok0 by (intro lr_init_loop_correct [OF T]) simp_all
  then show ?thesis
    by (auto simp: lr_set_base_def lr_init_helper_data_def DATA_INIT_LENGTH_def split: if_splits)
qed

lemma lr_set_base_total:
  assumes T: "supported_numtype T" and b: "2 \<le> b" "b \<le> 32767" and no: "\<not> overflows T b 3"
  shows "\<exists>P'. lr_set_base T P b = Inr P' \<and> lr_ok T P' \<and> \<not> lr_reached_max_power P' \<and>
       lr_base P' = b \<and> lr_alphabet P' = lr_alphabet P \<and>
       (b ^ 3 \<le> max_val T \<longrightarrow> length (lr_powers P') = 4)"
  using lr_set_base_correct [OF T b, of P] no by simp

lemma not_overflows_small:
  assumes T: "supported_numtype T" and b: "0 \<le> b" "b \<le> 36" and k: "k \<le> 5"
  shows "\<not> overflows T b k"
proof -
  have "b ^ k \<le> 36 ^ k" using b by (intro power_mono) simp_all
  also have "\<dots> \<le> (36::int) ^ 5" using k by (intro power_increasing) simp_all
  finally have "b ^ k \<le> max_val T" using max_val_lower [OF T] by simp
  then show ?thesis by (simp add: overflows_def)
qed

lemma base_cubed:
  assumes T: "supported_numtype T" and b: "2 \<le> b" "b \<le> 36"
  shows "b ^ 3 \<le> max_val T"
proof -
  have "b ^ 3 \<le> 36 ^ 3" using b by (intro power_mono) simp_all
  then show ?thesis using max_val_lower [OF T] by simp
qed

lemma default_alphabet_steps:
  assumes b: "0 \<le> b" "b \<le> 36" "b \<le> int cap"
  shows "\<exists>La. attach cap b decimal_digits (0, a) = Inr La \<and>
     attach cap b lower_letters La = Inr (b, default_chars b a)"
  using default_alphabet_correct [OF b, of a]
  by (cases "attach cap b decimal_digits (0, a)") simp_all

lemma lr_setup_default_alphabet_correct:
  assumes "0 \<le> lr_base P" "lr_base P \<le> 36"
  shows "lr_setup_default_alphabet P = Inr (P\<lparr>lr_alphabet := default_chars (lr_base P) (lr_alphabet P)\<rparr>)"
proof -
  obtain La where "attach lr_MAX_BASE (lr_base P) decimal_digits (0, lr_alphabet P) = Inr La"
    and "attach lr_MAX_BASE (lr_base P) lower_letters La = Inr (lr_base P, default_chars (lr_base P) (lr_alphabet P))"
    using default_alphabet_steps [of "lr_base P" lr_MAX_BASE "lr_alphabet P"] assms
    by (auto simp: lr_MAX_BASE_def)
  then show ?thesis using assms by (simp add: lr_setup_default_alphabet_def)
qed



lemma to_short_sqr: "0 \<le> b \<Longrightarrow> b \<le> 36 \<Longrightarrow> to_short (b * b) = b * b"
proof -
  assume b: "0 \<le> b" "b \<le> 36"
  then have "b * b \<le> 36 * 36" by (intro mult_mono) simp_all
  then show ?thesis using b by (intro to_short_id) simp_all
qed

lemma mp2_calculate_correct:
  assumes "0 \<le> mp2_base P" "mp2_base P \<le> 36"
  shows "\<exists>s. mp2_calculate_alphabet_sqr P = Inr (P\<lparr>mp2_alphabet_sqr := s\<rparr>) \<and>
          sqr_ok (mp2_base P) (mp2_alphabet P) s"
  using calculate_alphabet_sqr_correct [of "mp2_base P" mp2_BASE_MAX "mp2_alphabet P" "mp2_alphabet_sqr P"] assms
  by (auto simp: mp2_calculate_alphabet_sqr_def mp2_BASE_MAX_def)

lemma mp2_set_base_correct:
  assumes b: "2 \<le> b" "b \<le> 36"
  shows "\<exists>P'. mp2_set_base P b = Inr P' \<and> mp2_ok P' \<and> mp2_base P' = b \<and> mp2_alphabet P' = mp2_alphabet P"
proof -
  let ?P0 = "P\<lparr>mp2_base := b, mp2_base_sqr := to_short (b * b)\<rparr>"
  obtain s where "mp2_calculate_alphabet_sqr ?P0 = Inr (?P0\<lparr>mp2_alphabet_sqr := s\<rparr>)"
    and "sqr_ok (mp2_base ?P0) (mp2_alphabet ?P0) s"
    using mp2_calculate_correct [of ?P0] b by auto
  then show ?thesis using b to_short_sqr [of b]
    by (simp add: mp2_set_base_def mp2_ok_def mp2_BASE_MAX_def)
qed

lemma mp2_setup_default_alphabet_correct:
  assumes ok: "mp2_ok P"
  shows "\<exists>P'. mp2_setup_default_alphabet P = Inr P' \<and> mp2_ok P' \<and> mp2_base P' = mp2_base P \<and>
     mp2_alphabet P' = default_chars (mp2_base P) (mp2_alphabet P)"
proof -
  let ?b = "mp2_base P"
  have b: "2 \<le> ?b" "?b \<le> 36" and sq: "mp2_base_sqr P = ?b * ?b"
    using ok by (simp_all add: mp2_ok_def mp2_BASE_MAX_def)
  let ?P1 = "P\<lparr>mp2_alphabet := default_chars ?b (mp2_alphabet P)\<rparr>"
  obtain La where at: "attach mp2_BASE_MAX ?b decimal_digits (0, mp2_alphabet P) = Inr La"
    "attach mp2_BASE_MAX ?b lower_letters La = Inr (?b, default_chars ?b (mp2_alphabet P))"
    using default_alphabet_steps [of ?b mp2_BASE_MAX "mp2_alphabet P"] b
    by (auto simp: mp2_BASE_MAX_def)
  obtain s where c: "mp2_calculate_alphabet_sqr ?P1 = Inr (?P1\<lparr>mp2_alphabet_sqr := s\<rparr>)"
    and s: "sqr_ok (mp2_base ?P1) (mp2_alphabet ?P1) s"
    using mp2_calculate_correct [of ?P1] b by auto
  have "mp2_setup_default_alphabet P = Inr (?P1\<lparr>mp2_alphabet_sqr := s\<rparr>)"
    using at b c by (simp add: mp2_setup_default_alphabet_def mp2_BASE_MAX_def)
  then show ?thesis using s b sq by (simp add: mp2_ok_def mp2_BASE_MAX_def)
qed

lemma mp2_new_correct:
  assumes b: "2 \<le> b" "b \<le> 36"
  shows "\<exists>P. mp2_new b = Inr P \<and> mp2_ok P \<and> mp2_base P = b \<and>
     mp2_alphabet P = default_chars b Map.empty"
proof -
  let ?E = "\<lparr>mp2_base = - 1, mp2_base_sqr = 0, mp2_alphabet = Map.empty, mp2_alphabet_sqr = Map.empty\<rparr>"
  obtain P1 where s: "mp2_set_base ?E b = Inr P1" and ok: "mp2_ok P1"
    and pb: "mp2_base P1 = b" and pa: "mp2_alphabet P1 = Map.empty"
    using mp2_set_base_correct [OF b, of ?E] by auto
  obtain P2 where "mp2_setup_default_alphabet P1 = Inr P2" "mp2_ok P2" "mp2_base P2 = mp2_base P1"
     "mp2_alphabet P2 = default_chars (mp2_base P1) (mp2_alphabet P1)"
    using mp2_setup_default_alphabet_correct [OF ok] by auto
  then show ?thesis using s pb pa by (simp add: mp2_new_def)
qed

lemma sqr_inner_in_bounds:
  "sqr_inner cap a i js (L, s) = Inr r \<Longrightarrow> \<forall>j\<in>set js. j < cap"
proof (induction js arbitrary: L s)
  case Nil
  then show ?case by simp
next
  case (Cons j js)
  from Cons.prems have j: "j < cap"
    and rest: "sqr_inner cap a i js (L + 2, s(L := a i, L + 1 := a j)) = Inr r"
    by (simp_all split: if_splits)
  from Cons.IH [OF rest] j show ?case by simp
qed

lemma calculate_alphabet_sqr_too_big:
  assumes "int cap < b"
  shows "calculate_alphabet_sqr cap b a s \<noteq> Inr s'"
proof
  assume ok: "calculate_alphabet_sqr cap b a s = Inr s'"
  have c: "cap < nat b" using assms by simp
  then have "0 < nat b" by simp
  then have js: "[0..<nat b] = 0 # [Suc 0..<nat b]" by (rule upt_conv_Cons)
  obtain r where "sqr_inner cap a 0 [0..<nat b] (0, s) = Inr r"
    using ok unfolding calculate_alphabet_sqr_def
    by (subst (asm) js) (auto split: sum.splits)
  then have "\<forall>j\<in>set [0..<nat b]. j < cap" by (rule sqr_inner_in_bounds)
  then show False using c by auto
qed

lemma lr2_init_loop_correct:
  assumes T: "supported_numtype T"
  shows "cache_ok T (lr2_base P) False (lr2_powers P) \<Longrightarrow> 2 \<le> lr2_base P \<Longrightarrow>
    \<not> lr2_reached_max_power P \<Longrightarrow>
    lr2_base P ^ (length (lr2_powers P) + n - 1) \<le> max_val T \<Longrightarrow>
    \<exists>ps. lr2_init_loop T n P = Inr (P\<lparr>lr2_powers := ps\<rparr>) \<and> cache_ok T (lr2_base P) False ps \<and>
       length ps = length (lr2_powers P) + n"
proof (induction n arbitrary: P)
  case 0
  then show ?case by (auto intro: exI [of _ "lr2_powers P"])
next
  case (Suc n)
  let ?b = "lr2_base P" and ?ps = "lr2_powers P"
  have c: "cache_ok T ?b False ?ps" and b: "2 \<le> ?b" using Suc.prems by simp_all
  have ne: "?ps \<noteq> []" using c by (simp add: cache_ok_def)
  have len: "length ?ps \<le> 64" using cache_length [OF T c b] by simp
  have "?b ^ length ?ps \<le> ?b ^ (length ?ps + Suc n - 1)"
    using b by (intro power_increasing) simp_all
  then have True: "?b ^ length ?ps \<le> max_val T" using Suc.prems(4) by linarith
  let ?P1 = "P\<lparr>lr2_powers := ?ps @ [?b ^ length ?ps]\<rparr>"
  have app: "lr2_append_helper_data T P = Inr (True, ?P1)"
    using cache_append(1,2) [OF T c b True] ne len
    by (simp add: lr2_append_helper_data_def lr2_DIGITS_MAX_def)
  have "\<exists>ps. lr2_init_loop T n ?P1 = Inr (?P1\<lparr>lr2_powers := ps\<rparr>) \<and> cache_ok T (lr2_base ?P1) False ps \<and>
       length ps = length (lr2_powers ?P1) + n"
    using cache_append(4) [OF T c b True] b Suc.prems(3,4) by (intro Suc.IH) simp_all
  then show ?case using app by auto
qed

lemma lr2_init_helper_data_correct:
  assumes T: "supported_numtype T" and b: "2 \<le> lr2_base P" "lr2_base P \<le> 36"
  shows "\<exists>ps. lr2_init_helper_data T P =
        Inr (P\<lparr>lr2_reached_max_power := False, lr2_powers := ps\<rparr>) \<and>
      cache_ok T (lr2_base P) False ps \<and> length ps = 4"
proof -
  let ?P0 = "P\<lparr>lr2_reached_max_power := False, lr2_powers := [1]\<rparr>"
  have "1 \<le> max_val T" using max_val_lower [OF T] by simp
  then have c0: "cache_ok T (lr2_base ?P0) False (lr2_powers ?P0)"
    by (simp add: cache_ok_def powers_table_def)
  have "\<exists>ps. lr2_init_loop T 3 ?P0 = Inr (?P0\<lparr>lr2_powers := ps\<rparr>) \<and> cache_ok T (lr2_base ?P0) False ps \<and>
       length ps = length (lr2_powers ?P0) + 3"
    using c0 b base_cubed [OF T b] by (intro lr2_init_loop_correct [OF T]) simp_all
  then show ?thesis
    by (auto simp: lr2_init_helper_data_def DATA_INIT_LENGTH_def)
qed

lemma lr2_calculate_correct:
  assumes "0 \<le> lr2_base P" "lr2_base P \<le> 17"
  shows "\<exists>s. lr2_calculate_alphabet_sqr P = Inr (P\<lparr>lr2_alphabet_sqr := s\<rparr>) \<and>
          sqr_ok (lr2_base P) (lr2_alphabet P) s"
  using calculate_alphabet_sqr_correct [of "lr2_base P" lr2_BASE_MAX "lr2_alphabet P" "lr2_alphabet_sqr P"] assms
  by (auto simp: lr2_calculate_alphabet_sqr_def lr2_BASE_MAX_def)

lemma lr2_calculate_frame:
  assumes "lr2_calculate_alphabet_sqr P = Inr P'"
  shows "lr2_base P \<le> 17 \<and> (\<exists>s. P' = P\<lparr>lr2_alphabet_sqr := s\<rparr>)"
proof -
  have "\<not> int lr2_BASE_MAX < lr2_base P"
    using calculate_alphabet_sqr_too_big [of lr2_BASE_MAX "lr2_base P"] assms
    by (auto simp: lr2_calculate_alphabet_sqr_def split: sum.splits)
  then show ?thesis using assms
    by (auto simp: lr2_calculate_alphabet_sqr_def lr2_BASE_MAX_def split: sum.splits)
qed

lemma lr2_set_base_correct:
  assumes T: "supported_numtype T" and b: "2 \<le> b" and run: "lr2_set_base T P b = Inr P'"
  shows "lr2_ok T P' \<and> lr2_base P' = b \<and> lr2_alphabet P' = lr2_alphabet P \<and>
     \<not> lr2_reached_max_power P' \<and> length (lr2_powers P') = 4"
proof -
  let ?P0 = "P\<lparr>lr2_base := b, lr2_base_sqr := to_short (b * b)\<rparr>"
  obtain P1 where c1: "lr2_calculate_alphabet_sqr ?P0 = Inr P1" and i1: "lr2_init_helper_data T P1 = Inr P'"
    using run by (auto simp: lr2_set_base_def split: sum.splits)
  have b17: "b \<le> 17" using lr2_calculate_frame [OF c1] by simp
  obtain s where s: "lr2_calculate_alphabet_sqr ?P0 = Inr (?P0\<lparr>lr2_alphabet_sqr := s\<rparr>)"
    and sok: "sqr_ok b (lr2_alphabet P) s"
    using lr2_calculate_correct [of ?P0] b b17 by auto
  have P1: "P1 = ?P0\<lparr>lr2_alphabet_sqr := s\<rparr>" using c1 s by simp
  obtain ps where "lr2_init_helper_data T P1 =
        Inr (P1\<lparr>lr2_reached_max_power := False, lr2_powers := ps\<rparr>)"
    and "cache_ok T (lr2_base P1) False ps" and "length ps = 4"
    using lr2_init_helper_data_correct [OF T, of P1] P1 b b17 by auto
  then show ?thesis using i1 P1 sok b b17 to_short_sqr [of b]
    by (auto simp: lr2_ok_def lr2_BASE_MAX_def)
qed

lemma lr2_set_base_succeeds:
  assumes T: "supported_numtype T" and b: "2 \<le> b" "b \<le> 17"
  shows "\<exists>P'. lr2_set_base T P b = Inr P'"
proof -
  let ?P0 = "P\<lparr>lr2_base := b, lr2_base_sqr := to_short (b * b)\<rparr>"
  obtain s where s: "lr2_calculate_alphabet_sqr ?P0 = Inr (?P0\<lparr>lr2_alphabet_sqr := s\<rparr>)"
    using lr2_calculate_correct [of ?P0] b by auto
  obtain ps where "lr2_init_helper_data T (?P0\<lparr>lr2_alphabet_sqr := s\<rparr>) =
        Inr (?P0\<lparr>lr2_alphabet_sqr := s, lr2_reached_max_power := False, lr2_powers := ps\<rparr>)"
    using lr2_init_helper_data_correct [OF T, of "?P0\<lparr>lr2_alphabet_sqr := s\<rparr>"] b by auto
  then show ?thesis using s by (simp add: lr2_set_base_def)
qed

lemma lr2_ok_alphabet_update:
  assumes ok: "lr2_ok T P" and s: "sqr_ok (lr2_base P) a s"
  shows "lr2_ok T (P\<lparr>lr2_alphabet := a, lr2_alphabet_sqr := s\<rparr>)"
  using assms by (simp add: lr2_ok_def)

lemma lr2_setup_default_alphabet_correct:
  assumes ok: "lr2_ok T P" and run: "lr2_setup_default_alphabet P = Inr P'"
  shows "lr2_ok T P' \<and> lr2_base P' = lr2_base P \<and> lr2_base P \<le> 16 \<and>
     lr2_alphabet P' = default_chars (lr2_base P) (lr2_alphabet P) \<and>
     lr2_powers P' = lr2_powers P \<and> lr2_reached_max_power P' = lr2_reached_max_power P"
proof -
  let ?b = "lr2_base P"
  have b: "2 \<le> ?b" using ok by (simp add: lr2_ok_def)
  have b16: "?b \<le> 16" using run by (auto simp: lr2_setup_default_alphabet_def split: if_splits)
  let ?P1 = "P\<lparr>lr2_alphabet := default_chars ?b (lr2_alphabet P)\<rparr>"
  obtain La where at: "attach lr2_BASE_MAX ?b decimal_digits (0, lr2_alphabet P) = Inr La"
    "attach lr2_BASE_MAX ?b lower_letters La = Inr (?b, default_chars ?b (lr2_alphabet P))"
    using default_alphabet_steps [of ?b lr2_BASE_MAX "lr2_alphabet P"] b b16
    by (auto simp: lr2_BASE_MAX_def)
  obtain s where c: "lr2_calculate_alphabet_sqr ?P1 = Inr (?P1\<lparr>lr2_alphabet_sqr := s\<rparr>)"
    and s: "sqr_ok (lr2_base ?P1) (lr2_alphabet ?P1) s"
    using lr2_calculate_correct [of ?P1] b b16 by auto
  have "lr2_setup_default_alphabet P = Inr (?P1\<lparr>lr2_alphabet_sqr := s\<rparr>)"
    using at b16 c by (simp add: lr2_setup_default_alphabet_def)
  then have "P' = ?P1\<lparr>lr2_alphabet_sqr := s\<rparr>" using run by simp
  then show ?thesis using lr2_ok_alphabet_update [OF ok, of "default_chars ?b (lr2_alphabet P)" s] s b16
    by simp
qed

lemma lr2_setup_default_alphabet_succeeds:
  assumes "2 \<le> lr2_base P" "lr2_base P \<le> 16"
  shows "\<exists>P'. lr2_setup_default_alphabet P = Inr P'"
proof -
  let ?b = "lr2_base P"
  let ?P1 = "P\<lparr>lr2_alphabet := default_chars ?b (lr2_alphabet P)\<rparr>"
  obtain La where at: "attach lr2_BASE_MAX ?b decimal_digits (0, lr2_alphabet P) = Inr La"
    "attach lr2_BASE_MAX ?b lower_letters La = Inr (?b, default_chars ?b (lr2_alphabet P))"
    using default_alphabet_steps [of ?b lr2_BASE_MAX "lr2_alphabet P"] assms
    by (auto simp: lr2_BASE_MAX_def)
  obtain s where c: "lr2_calculate_alphabet_sqr ?P1 = Inr (?P1\<lparr>lr2_alphabet_sqr := s\<rparr>)"
    using lr2_calculate_correct [of ?P1] assms by auto
  show ?thesis using at assms c by (simp add: lr2_setup_default_alphabet_def)
qed






lemma lr_ok_alphabet_update: "lr_ok T (P\<lparr>lr_alphabet := a\<rparr>) = lr_ok T P"
  by (simp add: lr_ok_def)


lemma lr_print_total:
  assumes T: "supported_numtype T" and ok: "lr_ok T P" and x: "0 \<le> x" "x \<le> max_val T"
    and a: "alphabet_ok lr_MAX_BASE (lr_base P) (lr_alphabet P)"
    and no: "\<not> overflows T (lr_base P) (length (digits_of (lr_base P) x))"
  shows "\<exists>P'. lr_print T P x =
     Inr ((int (length (digits_of (lr_base P) x)), text_of (lr_alphabet P) (digits_of (lr_base P) x)), P')"
proof -
  obtain Q where "outcome (alphabet_ok lr_MAX_BASE (lr_base P) (lr_alphabet P))
       (text_of (lr_alphabet P) (digits_of (lr_base P) x), Q) (lr_print_to_out_iter T P x)"
    using lr_print_to_out_iter_correct [OF T ok x no] by blast
  then have "lr_print_to_out_iter T P x = Inr (text_of (lr_alphabet P) (digits_of (lr_base P) x), Q)"
    using a by (rule outcome_ok)
  then show ?thesis by (simp add: lr_print_def text_of_def)
qed



lemma lr2_print_total:
  assumes T: "supported_numtype T" and ok: "lr2_ok T P" and x: "0 \<le> x" "x \<le> max_val T"
    and a: "alphabet_ok lr2_BASE_MAX (lr2_base P) (lr2_alphabet P)"
    and no: "\<not> overflows T (lr2_base P) (Suc (length (digits_of (lr2_base P) x)))"
  shows "\<exists>P'. lr2_print T P x =
     Inr ((int (length (digits_of (lr2_base P) x)), text_of (lr2_alphabet P) (digits_of (lr2_base P) x)), P')"
proof -
  obtain Q where "outcome (alphabet_ok lr2_BASE_MAX (lr2_base P) (lr2_alphabet P))
       (text_of (lr2_alphabet P) (digits_of (lr2_base P) x), Q) (lr2_print_to_out_iter T P x)"
    using lr2_print_to_out_iter_correct [OF T ok x no] by blast
  then have "lr2_print_to_out_iter T P x = Inr (text_of (lr2_alphabet P) (digits_of (lr2_base P) x), Q)"
    using a by (rule outcome_ok)
  then show ?thesis by (simp add: lr2_print_def text_of_def)
qed










text \<open>
  C7. Printing 0 writes the one character \<^verbatim>\<open>_alphabet[ 0 ]\<close> and the buffer variant of
  \<^verbatim>\<open>print\<close> returns 1, in the four classes, whatever the base and the rest of the
  alphabet are; the power table is not touched.
\<close>

theorem zero_handling:
  assumes "lr_alphabet P1 0 = Some c1" and "lr2_alphabet P2 0 = Some c2"
    and "mp_alphabet P3 0 = Some c3" and "mp2_alphabet P4 0 = Some c4"
  shows "lr_print T P1 0 = Inr ((1, [c1]), P1) \<and>
         lr2_print T P2 0 = Inr ((1, [c2]), P2) \<and>
         mp_print P3 0 = Inr (1, [c3]) \<and>
         mp2_print T P4 0 = Inr (1, [c4])"
  using assms
  by (simp add: lr_print_def lr_print_to_out_iter_def lr2_print_def lr2_print_to_out_iter_def
      mp_print_def mp_print_to_buffer_def mp2_print_def mp2_print_to_buffer_def read_char_def
      lr_MAX_BASE_def lr2_BASE_MAX_def mp_BASE_MAX_def mp2_BASE_MAX_def
      mp_DIGITS_MAX_def mp2_DIGITS_MAX_def)

theorem zero_handling_witness:
  "lr_print int_t \<lparr>lr_base = 10, lr_alphabet = [0 \<mapsto> CHR ''0''],
       lr_reached_max_power = False, lr_powers = [1]\<rparr> 0 =
     Inr ((1, ''0''), \<lparr>lr_base = 10, lr_alphabet = [0 \<mapsto> CHR ''0''],
       lr_reached_max_power = False, lr_powers = [1]\<rparr>) \<and>
   lr2_print int_t \<lparr>lr2_base = 7, lr2_base_sqr = 49, lr2_alphabet = [0 \<mapsto> CHR ''x''],
       lr2_alphabet_sqr = Map.empty, lr2_reached_max_power = False, lr2_powers = [1]\<rparr> 0 =
     Inr ((1, ''x''), \<lparr>lr2_base = 7, lr2_base_sqr = 49, lr2_alphabet = [0 \<mapsto> CHR ''x''],
       lr2_alphabet_sqr = Map.empty, lr2_reached_max_power = False, lr2_powers = [1]\<rparr>) \<and>
   mp_print \<lparr>mp_base = 36, mp_alphabet = [0 \<mapsto> CHR ''0'']\<rparr> 0 = Inr (1, ''0'') \<and>
   mp2_print int_t \<lparr>mp2_base = 2, mp2_base_sqr = 4, mp2_alphabet = [0 \<mapsto> CHR ''o''],
       mp2_alphabet_sqr = Map.empty\<rparr> 0 = Inr (1, ''o'')"
  using zero_handling [of "\<lparr>lr_base = 10, lr_alphabet = [0 \<mapsto> CHR ''0''],
       lr_reached_max_power = False, lr_powers = [1]\<rparr>" "CHR ''0''"
     "\<lparr>lr2_base = 7, lr2_base_sqr = 49, lr2_alphabet = [0 \<mapsto> CHR ''x''],
       lr2_alphabet_sqr = Map.empty, lr2_reached_max_power = False, lr2_powers = [1]\<rparr>" "CHR ''x''"
     "\<lparr>mp_base = 36, mp_alphabet = [0 \<mapsto> CHR ''0'']\<rparr>" "CHR ''0''"
     "\<lparr>mp2_base = 2, mp2_base_sqr = 4, mp2_alphabet = [0 \<mapsto> CHR ''o''],
       mp2_alphabet_sqr = Map.empty\<rparr>" "CHR ''o''" int_t]
  by simp

lemma supported_int_t: "supported_numtype int_t"
  by (simp add: supported_numtype_def int_t_def)


lemma has_default_alphabet_nth:
  assumes "has_default_alphabet b a" "b \<le> 36" "d < nat b"
  shows "a d = Some (default_alphabet ! d)"
proof -
  have "map a [0..<nat b] ! d = map Some (take (nat b) default_alphabet) ! d"
    using assms(1) by (simp add: has_default_alphabet_def)
  then show ?thesis using assms(2,3) by (simp add: length_default_alphabet)
qed

lemma has_default_alphabet_default_chars:
  assumes "b \<le> 36"
  shows "has_default_alphabet b (default_chars b a)"
  unfolding has_default_alphabet_def
proof (rule nth_equalityI)
  show "length (map (default_chars b a) [0..<nat b]) =
        length (map Some (take (nat b) default_alphabet))"
    using assms by (simp add: length_default_alphabet)
next
  fix i assume "i < length (map (default_chars b a) [0..<nat b])"
  then have i: "i < nat b" by simp
  then have "int i < b" by linarith
  then have "default_chars b a i = Some (default_alphabet ! i)" by (simp add: default_chars_def)
  moreover have "i < length default_alphabet" using i assms by (simp add: length_default_alphabet)
  ultimately show "map (default_chars b a) [0..<nat b] ! i =
        map Some (take (nat b) default_alphabet) ! i"
    using i by simp
qed

lemma has_default_alphabet_smaller:
  assumes "has_default_alphabet b a" "b \<le> 36" "c \<le> b"
  shows "has_default_alphabet c a"
  unfolding has_default_alphabet_def
proof (rule nth_equalityI)
  show "length (map a [0..<nat c]) = length (map Some (take (nat c) default_alphabet))"
    using assms by (simp add: length_default_alphabet)
next
  fix i assume "i < length (map a [0..<nat c])"
  then have i: "i < nat c" by simp
  then have "i < nat b" using assms(3) by linarith
  then have "a i = Some (default_alphabet ! i)" by (rule has_default_alphabet_nth [OF assms(1,2)])
  moreover have "i < length default_alphabet" using i assms by (simp add: length_default_alphabet)
  ultimately show "map a [0..<nat c] ! i = map Some (take (nat c) default_alphabet) ! i"
    using i by simp
qed

lemma has_default_alphabet_ok:
  assumes "has_default_alphabet b a" "b \<le> 36" "b \<le> int cap"
  shows "alphabet_ok cap b a"
  using has_default_alphabet_nth [OF assms(1,2)] assms(3) by (simp add: alphabet_ok_def)

lemma has_default_alphabet_text:
  assumes "has_default_alphabet b a" "2 \<le> b" "b \<le> 36" "0 \<le> v"
  shows "text_of a (digits_of b v) = default_text (digits_of b v)"
proof -
  have "the (a (nat d)) = default_alphabet ! nat d" if "d \<in> set (digits_of b v)" for d
  proof -
    have "0 \<le> d \<and> d < b" using digits_of_range [OF assms(2,4) that] .
    then have "nat d < nat b" by simp
    then show ?thesis using has_default_alphabet_nth [OF assms(1,3)] by simp
  qed
  then show ?thesis unfolding text_of_def default_text_def by (intro map_cong) simp_all
qed

lemma length_default_text [simp]: "length (default_text ds) = length ds"
  by (simp add: default_text_def)

lemma lr_print_default:
  assumes T: "supported_numtype T" and ok: "lr_ok T P" and b: "lr_base P \<le> 36"
    and a: "has_default_alphabet (lr_base P) (lr_alphabet P)" and v: "0 \<le> v" "v \<le> max_val T"
    and no: "\<not> overflows T (lr_base P) (length (digits_of (lr_base P) v))"
  shows "\<exists>P'. lr_print T P v =
      Inr ((int (length (digits_of (lr_base P) v)), default_text (digits_of (lr_base P) v)), P')"
proof -
  have b2: "2 \<le> lr_base P" using ok by (simp add: lr_ok_def)
  have "alphabet_ok lr_MAX_BASE (lr_base P) (lr_alphabet P)"
    using a b by (intro has_default_alphabet_ok) (simp_all add: lr_MAX_BASE_def)
  then show ?thesis
    using lr_print_total [OF T ok v _ no] has_default_alphabet_text [OF a b2 b v(1)] by simp
qed

lemma lr2_print_default:
  assumes T: "supported_numtype T" and ok: "lr2_ok T P"
    and a: "has_default_alphabet (lr2_base P) (lr2_alphabet P)" and v: "0 \<le> v" "v \<le> max_val T"
    and no: "\<not> overflows T (lr2_base P) (Suc (length (digits_of (lr2_base P) v)))"
  shows "\<exists>P'. lr2_print T P v =
      Inr ((int (length (digits_of (lr2_base P) v)), default_text (digits_of (lr2_base P) v)), P')"
proof -
  have b2: "2 \<le> lr2_base P" "lr2_base P \<le> 17" using ok by (simp_all add: lr2_ok_def lr2_BASE_MAX_def)
  have "alphabet_ok lr2_BASE_MAX (lr2_base P) (lr2_alphabet P)"
    using a b2 by (intro has_default_alphabet_ok) (simp_all add: lr2_BASE_MAX_def)
  then show ?thesis
    using lr2_print_total [OF T ok v _ no] has_default_alphabet_text [OF a b2(1) _ v(1)] b2 by simp
qed

lemma mp_print_default:
  assumes b: "2 \<le> mp_base P" "mp_base P \<le> 36"
    and a: "has_default_alphabet (mp_base P) (mp_alphabet P)" and v: "0 \<le> v" "v < 2 ^ 64"
  shows "mp_print P v =
      Inr (int (length (digits_of (mp_base P) v)), default_text (digits_of (mp_base P) v))"
proof -
  have "alphabet_ok mp_BASE_MAX (mp_base P) (mp_alphabet P)"
    using a b by (intro has_default_alphabet_ok) (simp_all add: mp_BASE_MAX_def)
  then show ?thesis
    using outcome_ok [OF mp_print_correct [OF b(1) v]]
      has_default_alphabet_text [OF a b v(1)] by simp
qed

lemma mp2_print_default:
  assumes T: "supported_numtype T" and ok: "mp2_ok P"
    and a: "has_default_alphabet (mp2_base P) (mp2_alphabet P)" and v: "0 \<le> v" "v \<le> max_val T"
  shows "mp2_print T P v =
      Inr (int (length (digits_of (mp2_base P) v)), default_text (digits_of (mp2_base P) v))"
proof -
  have b2: "2 \<le> mp2_base P" "mp2_base P \<le> 36" using ok by (simp_all add: mp2_ok_def mp2_BASE_MAX_def)
  have "alphabet_ok mp2_BASE_MAX (mp2_base P) (mp2_alphabet P)"
    using a b2 by (intro has_default_alphabet_ok) (simp_all add: mp2_BASE_MAX_def)
  then show ?thesis
    using outcome_ok [OF mp2_print_correct [OF T ok v]]
      has_default_alphabet_text [OF a b2 v(1)] by simp
qed

lemma lr2_new_17: "lr2_new int_t 17 = Inl Assertion_Failed"
proof -
  let ?E = "\<lparr>lr2_base = - 1, lr2_base_sqr = 0, lr2_alphabet = Map.empty,
     lr2_alphabet_sqr = Map.empty, lr2_reached_max_power = False, lr2_powers = []\<rparr>"
  obtain P1 where s: "lr2_set_base int_t ?E 17 = Inr P1"
    using lr2_set_base_succeeds [OF supported_int_t, of 17 ?E] by auto
  have "lr2_base P1 = 17" using lr2_set_base_correct [OF supported_int_t _ s] by simp
  then have "lr2_setup_default_alphabet P1 = Inl Assertion_Failed"
    by (simp add: lr2_setup_default_alphabet_def)
  then show ?thesis using s by (simp add: lr2_new_def)
qed

lemma mp2_new_36: "\<not> isl (mp2_new 36)"
  using mp2_new_correct [of 36] by auto

text \<open>
  C9, as the claim states it, fails: \<^verbatim>\<open>lr_printer_2_digits::setup_default_alphabet\<close> asserts
  \<^verbatim>\<open>_base <= 10 + 6\<close>, so the constructor for base 17 stops at the assertion, and
  \<^verbatim>\<open>modulo_printer_2_digits::setup_default_alphabet\<close> asserts \<^verbatim>\<open>_base <= BASE_MAX\<close> with
  \<^verbatim>\<open>BASE_MAX = 10 + 26\<close>, so the constructor for base 36 succeeds. Neither paired class
  has 17 as the greatest base of the default alphabet.
\<close>

theorem default_alphabet_caps_counterexample:
  "lr2_new int_t 17 = Inl Assertion_Failed \<and> \<not> isl (mp2_new 36)"
  using lr2_new_17 mp2_new_36 by simp

lemma mp_setup_default_alphabet_cases:
  assumes "0 \<le> mp_base P"
  shows "mp_setup_default_alphabet P =
     (if mp_base P \<le> 36
      then Inr (P\<lparr>mp_alphabet := default_chars (mp_base P) (mp_alphabet P)\<rparr>)
      else Inl Assertion_Failed)"
proof (cases "mp_base P \<le> 36")
  case True
  obtain La where "attach mp_BASE_MAX (mp_base P) decimal_digits (0, mp_alphabet P) = Inr La"
    and "attach mp_BASE_MAX (mp_base P) lower_letters La =
           Inr (mp_base P, default_chars (mp_base P) (mp_alphabet P))"
    using default_alphabet_steps [of "mp_base P" mp_BASE_MAX "mp_alphabet P"] assms True
    by (auto simp: mp_BASE_MAX_def)
  then show ?thesis using True by (simp add: mp_setup_default_alphabet_def)
next
  case False
  then show ?thesis by (simp add: mp_setup_default_alphabet_def)
qed

lemma lr_setup_default_alphabet_cases:
  assumes "0 \<le> lr_base P"
  shows "lr_setup_default_alphabet P =
     (if lr_base P \<le> 36
      then Inr (P\<lparr>lr_alphabet := default_chars (lr_base P) (lr_alphabet P)\<rparr>)
      else Inl Assertion_Failed)"
  using assms lr_setup_default_alphabet_correct [of P]
  by (simp add: lr_setup_default_alphabet_def)

lemma mp2_setup_default_alphabet_cases:
  assumes "0 \<le> mp2_base P"
  shows "\<exists>s. sqr_ok (mp2_base P) (default_chars (mp2_base P) (mp2_alphabet P)) s \<and>
     mp2_setup_default_alphabet P =
     (if mp2_base P \<le> 36
      then Inr (P\<lparr>mp2_alphabet := default_chars (mp2_base P) (mp2_alphabet P), mp2_alphabet_sqr := s\<rparr>)
      else Inl Assertion_Failed)"
proof (cases "mp2_base P \<le> 36")
  case True
  let ?b = "mp2_base P"
  let ?P1 = "P\<lparr>mp2_alphabet := default_chars ?b (mp2_alphabet P)\<rparr>"
  obtain La where at: "attach mp2_BASE_MAX ?b decimal_digits (0, mp2_alphabet P) = Inr La"
    "attach mp2_BASE_MAX ?b lower_letters La = Inr (?b, default_chars ?b (mp2_alphabet P))"
    using default_alphabet_steps [of ?b mp2_BASE_MAX "mp2_alphabet P"] assms True
    by (auto simp: mp2_BASE_MAX_def)
  obtain s where c: "mp2_calculate_alphabet_sqr ?P1 = Inr (?P1\<lparr>mp2_alphabet_sqr := s\<rparr>)"
    and s: "sqr_ok (mp2_base ?P1) (mp2_alphabet ?P1) s"
    using mp2_calculate_correct [of ?P1] assms True by auto
  have "mp2_setup_default_alphabet P = Inr (?P1\<lparr>mp2_alphabet_sqr := s\<rparr>)"
    using at True c by (simp add: mp2_setup_default_alphabet_def mp2_BASE_MAX_def)
  then show ?thesis using s True by auto
next
  case False
  obtain s where "sqr_ok (mp2_base P) (default_chars (mp2_base P) (mp2_alphabet P)) s"
    using calculate_alphabet_sqr_correct [of "mp2_base P" "nat (mp2_base P)"] assms by auto
  then show ?thesis using False by (auto simp: mp2_setup_default_alphabet_def mp2_BASE_MAX_def)
qed

lemma lr2_setup_default_alphabet_cases:
  assumes "0 \<le> lr2_base P"
  shows "\<exists>s. sqr_ok (lr2_base P) (default_chars (lr2_base P) (lr2_alphabet P)) s \<and>
     lr2_setup_default_alphabet P =
     (if lr2_base P \<le> 16
      then Inr (P\<lparr>lr2_alphabet := default_chars (lr2_base P) (lr2_alphabet P), lr2_alphabet_sqr := s\<rparr>)
      else Inl Assertion_Failed)"
proof (cases "lr2_base P \<le> 16")
  case True
  let ?b = "lr2_base P"
  let ?P1 = "P\<lparr>lr2_alphabet := default_chars ?b (lr2_alphabet P)\<rparr>"
  obtain La where at: "attach lr2_BASE_MAX ?b decimal_digits (0, lr2_alphabet P) = Inr La"
    "attach lr2_BASE_MAX ?b lower_letters La = Inr (?b, default_chars ?b (lr2_alphabet P))"
    using default_alphabet_steps [of ?b lr2_BASE_MAX "lr2_alphabet P"] assms True
    by (auto simp: lr2_BASE_MAX_def)
  obtain s where c: "lr2_calculate_alphabet_sqr ?P1 = Inr (?P1\<lparr>lr2_alphabet_sqr := s\<rparr>)"
    and s: "sqr_ok (lr2_base ?P1) (lr2_alphabet ?P1) s"
    using lr2_calculate_correct [of ?P1] assms True by auto
  have "lr2_setup_default_alphabet P = Inr (?P1\<lparr>lr2_alphabet_sqr := s\<rparr>)"
    using at True c by (simp add: lr2_setup_default_alphabet_def)
  then show ?thesis using s True by auto
next
  case False
  obtain s where "sqr_ok (lr2_base P) (default_chars (lr2_base P) (lr2_alphabet P)) s"
    using calculate_alphabet_sqr_correct [of "lr2_base P" "nat (lr2_base P)"] assms by auto
  then show ?thesis using False by (auto simp: lr2_setup_default_alphabet_def)
qed

lemma default_alphabet_value: "default_alphabet = ''0123456789abcdefghijklmnopqrstuvwxyz''"
  by (simp add: default_alphabet_def decimal_digits_def lower_letters_def)

text \<open>
  C9, amended. For a base that is not negative, \<^verbatim>\<open>setup_default_alphabet\<close> writes the
  characters 0 to 9 and then a to z into the positions below the base and leaves the other
  positions as they were; the paired classes compute the pair table from the new
  alphabet. The assertion on the base passes up to 36 in \<^verbatim>\<open>lr_printer\<close>,
  \<^verbatim>\<open>modulo_printer\<close> and \<^verbatim>\<open>modulo_printer_2_digits\<close>, and up to 16 in
  \<^verbatim>\<open>lr_printer_2_digits\<close>; above, the call stops at the assertion.
\<close>

theorem default_alphabet_caps:
  assumes "0 \<le> lr_base P1" and "0 \<le> lr2_base P2" and "0 \<le> mp_base P3" and "0 \<le> mp2_base P4"
  shows "lr_setup_default_alphabet P1 =
       (if lr_base P1 \<le> 36
        then Inr (P1\<lparr>lr_alphabet := default_chars (lr_base P1) (lr_alphabet P1)\<rparr>)
        else Inl Assertion_Failed) \<and>
     mp_setup_default_alphabet P3 =
       (if mp_base P3 \<le> 36
        then Inr (P3\<lparr>mp_alphabet := default_chars (mp_base P3) (mp_alphabet P3)\<rparr>)
        else Inl Assertion_Failed) \<and>
     (\<exists>s. sqr_ok (mp2_base P4) (default_chars (mp2_base P4) (mp2_alphabet P4)) s \<and>
        mp2_setup_default_alphabet P4 =
          (if mp2_base P4 \<le> 36
           then Inr (P4\<lparr>mp2_alphabet := default_chars (mp2_base P4) (mp2_alphabet P4),
                        mp2_alphabet_sqr := s\<rparr>)
           else Inl Assertion_Failed)) \<and>
     (\<exists>s. sqr_ok (lr2_base P2) (default_chars (lr2_base P2) (lr2_alphabet P2)) s \<and>
        lr2_setup_default_alphabet P2 =
          (if lr2_base P2 \<le> 16
           then Inr (P2\<lparr>lr2_alphabet := default_chars (lr2_base P2) (lr2_alphabet P2),
                        lr2_alphabet_sqr := s\<rparr>)
           else Inl Assertion_Failed)) \<and>
     default_chars b a k =
       (if int k < b then Some (''0123456789abcdefghijklmnopqrstuvwxyz'' ! k) else a k)"
  using lr_setup_default_alphabet_cases [OF assms(1)] mp_setup_default_alphabet_cases [OF assms(3)]
    mp2_setup_default_alphabet_cases [OF assms(4)] lr2_setup_default_alphabet_cases [OF assms(2)]
  by (simp add: default_chars_def default_alphabet_value)

theorem default_alphabet_caps_witness:
  "lr_setup_default_alphabet \<lparr>lr_base = 36, lr_alphabet = Map.empty,
       lr_reached_max_power = False, lr_powers = [1]\<rparr> =
     Inr \<lparr>lr_base = 36, lr_alphabet = default_chars 36 Map.empty,
       lr_reached_max_power = False, lr_powers = [1]\<rparr> \<and>
   mp_setup_default_alphabet \<lparr>mp_base = 37, mp_alphabet = Map.empty\<rparr> = Inl Assertion_Failed \<and>
   (\<exists>s. sqr_ok 36 (default_chars 36 Map.empty) s \<and>
      mp2_setup_default_alphabet \<lparr>mp2_base = 36, mp2_base_sqr = 1296, mp2_alphabet = Map.empty,
          mp2_alphabet_sqr = Map.empty\<rparr> =
        Inr \<lparr>mp2_base = 36, mp2_base_sqr = 1296, mp2_alphabet = default_chars 36 Map.empty,
          mp2_alphabet_sqr = s\<rparr>) \<and>
   (\<exists>s. sqr_ok 16 (default_chars 16 Map.empty) s \<and>
      lr2_setup_default_alphabet \<lparr>lr2_base = 16, lr2_base_sqr = 256, lr2_alphabet = Map.empty,
          lr2_alphabet_sqr = Map.empty, lr2_reached_max_power = False, lr2_powers = [1]\<rparr> =
        Inr \<lparr>lr2_base = 16, lr2_base_sqr = 256, lr2_alphabet = default_chars 16 Map.empty,
          lr2_alphabet_sqr = s, lr2_reached_max_power = False, lr2_powers = [1]\<rparr>) \<and>
   default_chars 16 Map.empty 10 = Some CHR ''a''"
  using default_alphabet_caps [of
      "\<lparr>lr_base = 36, lr_alphabet = Map.empty, lr_reached_max_power = False, lr_powers = [1]\<rparr>"
      "\<lparr>lr2_base = 16, lr2_base_sqr = 256, lr2_alphabet = Map.empty,
          lr2_alphabet_sqr = Map.empty, lr2_reached_max_power = False, lr2_powers = [1]\<rparr>"
      "\<lparr>mp_base = 37, mp_alphabet = Map.empty\<rparr>"
      "\<lparr>mp2_base = 36, mp2_base_sqr = 1296, mp2_alphabet = Map.empty,
          mp2_alphabet_sqr = Map.empty\<rparr>"
      16 Map.empty 10]
  by simp

lemma powers_table_4: "powers_table b 4 = [1, b, b ^ 2, b ^ 3]"
  by (simp add: powers_table_def numeral_eq_Suc)

lemma digits_255: "digits_of 8 255 = [3, 7, 7]" "digits_of 16 255 = [15, 15]"
  by (simp_all add: digits_of.simps)

lemma length_digits_255:
  "length (digits_of 8 255) = 3" "Suc (length (digits_of 8 255)) = 4"
  "length (digits_of 16 255) = 2" "Suc (length (digits_of 16 255)) = 3"
  by (simp_all add: digits_255)

lemma default_text_255: "default_text [3, 7, 7] = ''377''" "default_text [15, 15] = ''ff''"
  by (simp_all add: default_text_def default_alphabet_def decimal_digits_def lower_letters_def)

lemma lr_set_base_reset:
  assumes T: "supported_numtype T" and b: "2 \<le> b" "b \<le> 36"
  shows "\<exists>A. lr_set_base T P b = Inr A \<and> lr_ok T A \<and> lr_base A = b \<and>
     \<not> lr_reached_max_power A \<and> lr_alphabet A = lr_alphabet P \<and>
     lr_powers A = [1, b, b ^ 2, b ^ 3]"
proof -
  have b': "b \<le> 32767" "0 \<le> b" using b by simp_all
  obtain A where A: "lr_set_base T P b = Inr A" "lr_ok T A" "\<not> lr_reached_max_power A"
    "lr_base A = b" "lr_alphabet A = lr_alphabet P" "length (lr_powers A) = 4"
    using lr_set_base_total [OF T b(1) b'(1) not_overflows_small [OF T b'(2) b(2), of 3],
        where P = P]
      base_cubed [OF T b] by auto
  have "lr_powers A = powers_table b (length (lr_powers A))"
    using A(2,4) by (simp add: lr_ok_def cache_ok_def)
  then have "lr_powers A = [1, b, b ^ 2, b ^ 3]" using A(6) powers_table_4 by simp
  then show ?thesis using A by blast
qed

lemma lr2_set_base_reset:
  assumes T: "supported_numtype T" and b: "2 \<le> b" "b \<le> 17"
  shows "\<exists>A. lr2_set_base T P b = Inr A \<and> lr2_ok T A \<and> lr2_base A = b \<and>
     lr2_base_sqr A = b * b \<and> sqr_ok b (lr2_alphabet A) (lr2_alphabet_sqr A) \<and>
     \<not> lr2_reached_max_power A \<and> lr2_alphabet A = lr2_alphabet P \<and>
     lr2_powers A = [1, b, b ^ 2, b ^ 3]"
proof -
  obtain A where s: "lr2_set_base T P b = Inr A" using lr2_set_base_succeeds [OF T b] by blast
  have A: "lr2_ok T A" "lr2_base A = b" "lr2_alphabet A = lr2_alphabet P"
    "\<not> lr2_reached_max_power A" "length (lr2_powers A) = 4"
    using lr2_set_base_correct [OF T b(1) s] by simp_all
  have "lr2_powers A = powers_table b (length (lr2_powers A))"
    using A(1,2) by (simp add: lr2_ok_def cache_ok_def)
  then have p: "lr2_powers A = [1, b, b ^ 2, b ^ 3]" using A(5) powers_table_4 by simp
  have "lr2_base_sqr A = b * b" "sqr_ok b (lr2_alphabet A) (lr2_alphabet_sqr A)"
    using A(1,2) by (simp_all add: lr2_ok_def)
  then show ?thesis using s A p by blast
qed

lemma lr_base_change:
  assumes T: "supported_numtype T" and a: "has_default_alphabet 8 (lr_alphabet P)"
  shows "\<exists>A B C D E. lr_set_base T P 8 = Inr A \<and> lr_base A = 8 \<and>
       \<not> lr_reached_max_power A \<and> lr_powers A = [1, 8, 64, 512] \<and>
       lr_print T A 255 = Inr ((3, ''377''), B) \<and>
       lr_set_base T B 16 = Inr C \<and> lr_base C = 16 \<and>
       \<not> lr_reached_max_power C \<and> lr_powers C = [1, 16, 256, 4096] \<and>
       lr_setup_default_alphabet C = Inr D \<and> lr_print T D 255 = Inr ((2, ''ff''), E)"
proof -
  have v: "(0::int) \<le> 255" "255 \<le> max_val T" using max_val_lower [OF T] by simp_all
  obtain A where A: "lr_set_base T P 8 = Inr A" "lr_ok T A" "lr_base A = 8"
    "\<not> lr_reached_max_power A" "lr_alphabet A = lr_alphabet P" "lr_powers A = [1, 8, 8 ^ 2, 8 ^ 3]"
    using lr_set_base_reset [OF T, of 8 P] by auto
  have "\<not> overflows T (lr_base A) (length (digits_of (lr_base A) 255))"
    unfolding A(3) length_digits_255 using not_overflows_small [OF T, of 8 3] by simp
  then obtain B where B: "lr_print T A 255 = Inr ((3, ''377''), B)"
    using lr_print_default [OF T A(2) _ _ v] A(3,5) a digits_255 default_text_255 by auto
  obtain C where C: "lr_set_base T B 16 = Inr C" "lr_ok T C" "lr_base C = 16"
    "\<not> lr_reached_max_power C" "lr_powers C = [1, 16, 16 ^ 2, 16 ^ 3]"
    using lr_set_base_reset [OF T, of 16 B] by auto
  let ?D = "C\<lparr>lr_alphabet := default_chars 16 (lr_alphabet C)\<rparr>"
  have D: "lr_setup_default_alphabet C = Inr ?D"
    using lr_setup_default_alphabet_correct [of C] C(3) by simp
  have okD: "lr_ok T ?D" using C(2) by (simp add: lr_ok_alphabet_update)
  have aD: "has_default_alphabet (lr_base ?D) (lr_alphabet ?D)"
    using C(3) has_default_alphabet_default_chars [of 16] by simp
  have bD: "lr_base ?D = 16" using C(3) by simp
  have "\<not> overflows T (lr_base ?D) (length (digits_of (lr_base ?D) 255))"
    unfolding bD length_digits_255 using not_overflows_small [OF T, of 16 2] by simp
  then obtain E where E: "lr_print T ?D 255 = Inr ((2, ''ff''), E)"
    using lr_print_default [OF T okD _ aD v] C(3) digits_255 default_text_255 by auto
  have "lr_powers A = [1, 8, 64, 512]" "lr_powers C = [1, 16, 256, 4096]"
    using A(6) C(5) by simp_all
  then show ?thesis using A(1,3,4) B C(1,3,4) D E by blast
qed

lemma lr2_base_change:
  assumes T: "supported_numtype T" and a: "has_default_alphabet 8 (lr2_alphabet P)"
  shows "\<exists>A B C D E. lr2_set_base T P 8 = Inr A \<and> lr2_base A = 8 \<and> lr2_base_sqr A = 64 \<and>
       sqr_ok 8 (lr2_alphabet A) (lr2_alphabet_sqr A) \<and>
       \<not> lr2_reached_max_power A \<and> lr2_powers A = [1, 8, 64, 512] \<and>
       lr2_print T A 255 = Inr ((3, ''377''), B) \<and>
       lr2_set_base T B 16 = Inr C \<and> lr2_base C = 16 \<and> lr2_base_sqr C = 256 \<and>
       sqr_ok 16 (lr2_alphabet C) (lr2_alphabet_sqr C) \<and>
       \<not> lr2_reached_max_power C \<and> lr2_powers C = [1, 16, 256, 4096] \<and>
       lr2_setup_default_alphabet C = Inr D \<and> lr2_print T D 255 = Inr ((2, ''ff''), E)"
proof -
  have v: "(0::int) \<le> 255" "255 \<le> max_val T" using max_val_lower [OF T] by simp_all
  obtain A where A: "lr2_set_base T P 8 = Inr A" "lr2_ok T A" "lr2_base A = 8"
    "lr2_base_sqr A = 8 * 8" "sqr_ok 8 (lr2_alphabet A) (lr2_alphabet_sqr A)"
    "\<not> lr2_reached_max_power A" "lr2_alphabet A = lr2_alphabet P"
    "lr2_powers A = [1, 8, 8 ^ 2, 8 ^ 3]"
    using lr2_set_base_reset [OF T, of 8 P] by auto
  have "\<not> overflows T (lr2_base A) (Suc (length (digits_of (lr2_base A) 255)))"
    unfolding A(3) length_digits_255 using not_overflows_small [OF T, of 8 4] by simp
  then obtain B where B: "lr2_print T A 255 = Inr ((3, ''377''), B)"
    using lr2_print_default [OF T A(2) _ v] A(3,7) a digits_255 default_text_255 by auto
  obtain C where C: "lr2_set_base T B 16 = Inr C" "lr2_ok T C" "lr2_base C = 16"
    "lr2_base_sqr C = 16 * 16" "sqr_ok 16 (lr2_alphabet C) (lr2_alphabet_sqr C)"
    "\<not> lr2_reached_max_power C" "lr2_powers C = [1, 16, 16 ^ 2, 16 ^ 3]"
    using lr2_set_base_reset [OF T, of 16 B] by auto
  obtain D where D: "lr2_setup_default_alphabet C = Inr D"
    using lr2_setup_default_alphabet_succeeds [of C] C(3) by auto
  have D': "lr2_ok T D" "lr2_base D = 16" "lr2_alphabet D = default_chars 16 (lr2_alphabet C)"
    using lr2_setup_default_alphabet_correct [OF C(2) D] C(3) by simp_all
  have aD: "has_default_alphabet (lr2_base D) (lr2_alphabet D)"
    using D'(2,3) has_default_alphabet_default_chars [of 16] by simp
  have "\<not> overflows T (lr2_base D) (Suc (length (digits_of (lr2_base D) 255)))"
    unfolding D'(2) length_digits_255 using not_overflows_small [OF T, of 16 3] by simp
  then obtain E where E: "lr2_print T D 255 = Inr ((2, ''ff''), E)"
    using lr2_print_default [OF T D'(1) aD v] D'(2) digits_255 default_text_255 by auto
  have "lr2_powers A = [1, 8, 64, 512]" "lr2_powers C = [1, 16, 256, 4096]"
    "lr2_base_sqr A = 64" "lr2_base_sqr C = 256"
    using A(4,8) C(4,7) by simp_all
  then show ?thesis using A(1,3,5,6) B C(1,3,5,6) D E by blast
qed

lemma mp_base_change:
  assumes a: "has_default_alphabet 8 (mp_alphabet P)"
  shows "\<exists>D. mp_print (mp_set_base P 8) 255 = Inr (3, ''377'') \<and>
       mp_setup_default_alphabet (mp_set_base (mp_set_base P 8) 16) = Inr D \<and>
       mp_print D 255 = Inr (2, ''ff'')"
proof -
  have v: "(0::int) \<le> 255" "(255::int) < 2 ^ 64" by simp_all
  let ?A = "mp_set_base P 8"
  have A: "mp_base ?A = 8" "mp_alphabet ?A = mp_alphabet P" by (simp_all add: mp_set_base_def)
  have p1: "mp_print ?A 255 = Inr (3, ''377'')"
    using mp_print_default [OF _ _ _ v, of ?A] A a digits_255 default_text_255 by simp
  let ?C = "mp_set_base ?A 16"
  let ?D = "?C\<lparr>mp_alphabet := default_chars 16 (mp_alphabet ?C)\<rparr>"
  have C: "mp_base ?C = 16" by (simp add: mp_set_base_def)
  have D: "mp_setup_default_alphabet ?C = Inr ?D"
    using mp_setup_default_alphabet_cases [of ?C] C by simp
  have aD: "has_default_alphabet (mp_base ?D) (mp_alphabet ?D)"
    using C has_default_alphabet_default_chars [of 16] by simp
  have p2: "mp_print ?D 255 = Inr (2, ''ff'')"
    using mp_print_default [OF _ _ aD v] C digits_255 default_text_255 by simp
  show ?thesis using p1 D p2 by blast
qed

lemma mp2_base_change:
  assumes T: "supported_numtype T" and a: "has_default_alphabet 8 (mp2_alphabet P)"
  shows "\<exists>A C D. mp2_set_base P 8 = Inr A \<and> mp2_base A = 8 \<and> mp2_base_sqr A = 64 \<and>
       sqr_ok 8 (mp2_alphabet A) (mp2_alphabet_sqr A) \<and>
       mp2_print T A 255 = Inr (3, ''377'') \<and>
       mp2_set_base A 16 = Inr C \<and> mp2_base C = 16 \<and> mp2_base_sqr C = 256 \<and>
       sqr_ok 16 (mp2_alphabet C) (mp2_alphabet_sqr C) \<and>
       mp2_setup_default_alphabet C = Inr D \<and> mp2_print T D 255 = Inr (2, ''ff'')"
proof -
  have v: "(0::int) \<le> 255" "255 \<le> max_val T" using max_val_lower [OF T] by simp_all
  obtain A where A: "mp2_set_base P 8 = Inr A" "mp2_ok A" "mp2_base A = 8"
    "mp2_alphabet A = mp2_alphabet P"
    using mp2_set_base_correct [of 8 P] by auto
  have A': "mp2_base_sqr A = 64" "sqr_ok 8 (mp2_alphabet A) (mp2_alphabet_sqr A)"
    using A(2,3) by (simp_all add: mp2_ok_def)
  have p1: "mp2_print T A 255 = Inr (3, ''377'')"
    using mp2_print_default [OF T A(2) _ v] A(3,4) a digits_255 default_text_255 by simp
  obtain C where C: "mp2_set_base A 16 = Inr C" "mp2_ok C" "mp2_base C = 16"
    using mp2_set_base_correct [of 16 A] by auto
  have C': "mp2_base_sqr C = 256" "sqr_ok 16 (mp2_alphabet C) (mp2_alphabet_sqr C)"
    using C(2,3) by (simp_all add: mp2_ok_def)
  obtain D where D: "mp2_setup_default_alphabet C = Inr D" "mp2_ok D" "mp2_base D = 16"
    "mp2_alphabet D = default_chars 16 (mp2_alphabet C)"
    using mp2_setup_default_alphabet_correct [OF C(2)] C(3) by auto
  have aD: "has_default_alphabet (mp2_base D) (mp2_alphabet D)"
    using D(3,4) has_default_alphabet_default_chars [of 16] by simp
  have p2: "mp2_print T D 255 = Inr (2, ''ff'')"
    using mp2_print_default [OF T D(2) aD v] D(3) digits_255 default_text_255 by simp
  show ?thesis using A(1,3) A' p1 C(1,3) C' D(1) p2 by blast
qed

text \<open>
  Claim C8 (base change on one instance). Take a printer of each of the four classes in any
  state whatever (whatever its base, its power table, its flag \<^verbatim>\<open>_reached_max_power\<close> and
  its digit-pair table are) whose alphabet holds \<^verbatim>\<open>0\<close> to \<^verbatim>\<open>7\<close> in the first eight cells, over a
  number type of 32 to 64 bits. Then \<^verbatim>\<open>set_base( 8 )\<close> succeeds and \<^verbatim>\<open>print( 255 )\<close> gives
  \<^verbatim>\<open>377\<close> with count 3; on the instance so left, \<^verbatim>\<open>set_base( 16 )\<close> and
  \<^verbatim>\<open>setup_default_alphabet()\<close> succeed and \<^verbatim>\<open>print( 255 )\<close> gives \<^verbatim>\<open>ff\<close> with count 2.
  \<^verbatim>\<open>set_base\<close> resets the derived state: for every base \<open>b\<close> the class admits it leaves the
  alphabet alone, clears \<^verbatim>\<open>_reached_max_power\<close>, makes the power table \<open>[1, b, b\<^sup>2, b\<^sup>3]\<close>, and
  in the paired classes sets \<^verbatim>\<open>_base_sqr\<close> to \<open>b * b\<close> and rebuilds the digit-pair table for
  \<open>b\<close>.
\<close>

theorem base_change_consistency:
  assumes "supported_numtype T"
    and "has_default_alphabet 8 (lr_alphabet P1)" and "has_default_alphabet 8 (lr2_alphabet P2)"
    and "has_default_alphabet 8 (mp_alphabet P3)" and "has_default_alphabet 8 (mp2_alphabet P4)"
  shows "(\<exists>A B C D E. lr_set_base T P1 8 = Inr A \<and> lr_base A = 8 \<and>
       \<not> lr_reached_max_power A \<and> lr_powers A = [1, 8, 64, 512] \<and>
       lr_print T A 255 = Inr ((3, ''377''), B) \<and>
       lr_set_base T B 16 = Inr C \<and> lr_base C = 16 \<and>
       \<not> lr_reached_max_power C \<and> lr_powers C = [1, 16, 256, 4096] \<and>
       lr_setup_default_alphabet C = Inr D \<and> lr_print T D 255 = Inr ((2, ''ff''), E)) \<and>
    (\<exists>A B C D E. lr2_set_base T P2 8 = Inr A \<and> lr2_base A = 8 \<and> lr2_base_sqr A = 64 \<and>
       sqr_ok 8 (lr2_alphabet A) (lr2_alphabet_sqr A) \<and>
       \<not> lr2_reached_max_power A \<and> lr2_powers A = [1, 8, 64, 512] \<and>
       lr2_print T A 255 = Inr ((3, ''377''), B) \<and>
       lr2_set_base T B 16 = Inr C \<and> lr2_base C = 16 \<and> lr2_base_sqr C = 256 \<and>
       sqr_ok 16 (lr2_alphabet C) (lr2_alphabet_sqr C) \<and>
       \<not> lr2_reached_max_power C \<and> lr2_powers C = [1, 16, 256, 4096] \<and>
       lr2_setup_default_alphabet C = Inr D \<and> lr2_print T D 255 = Inr ((2, ''ff''), E)) \<and>
    (\<exists>D. mp_print (mp_set_base P3 8) 255 = Inr (3, ''377'') \<and>
       mp_setup_default_alphabet (mp_set_base (mp_set_base P3 8) 16) = Inr D \<and>
       mp_print D 255 = Inr (2, ''ff'')) \<and>
    (\<exists>A C D. mp2_set_base P4 8 = Inr A \<and> mp2_base A = 8 \<and> mp2_base_sqr A = 64 \<and>
       sqr_ok 8 (mp2_alphabet A) (mp2_alphabet_sqr A) \<and>
       mp2_print T A 255 = Inr (3, ''377'') \<and>
       mp2_set_base A 16 = Inr C \<and> mp2_base C = 16 \<and> mp2_base_sqr C = 256 \<and>
       sqr_ok 16 (mp2_alphabet C) (mp2_alphabet_sqr C) \<and>
       mp2_setup_default_alphabet C = Inr D \<and> mp2_print T D 255 = Inr (2, ''ff'')) \<and>
    (\<forall>b. 2 \<le> b \<and> b \<le> 36 \<longrightarrow>
       (\<exists>A. lr_set_base T P1 b = Inr A \<and> lr_base A = b \<and> lr_alphabet A = lr_alphabet P1 \<and>
          \<not> lr_reached_max_power A \<and> lr_powers A = [1, b, b ^ 2, b ^ 3])) \<and>
    (\<forall>b. 2 \<le> b \<and> b \<le> 17 \<longrightarrow>
       (\<exists>A. lr2_set_base T P2 b = Inr A \<and> lr2_base A = b \<and> lr2_alphabet A = lr2_alphabet P2 \<and>
          lr2_base_sqr A = b * b \<and> sqr_ok b (lr2_alphabet A) (lr2_alphabet_sqr A) \<and>
          \<not> lr2_reached_max_power A \<and> lr2_powers A = [1, b, b ^ 2, b ^ 3])) \<and>
    (\<forall>b. 2 \<le> b \<and> b \<le> 36 \<longrightarrow>
       (\<exists>A. mp2_set_base P4 b = Inr A \<and> mp2_base A = b \<and> mp2_alphabet A = mp2_alphabet P4 \<and>
          mp2_base_sqr A = b * b \<and> sqr_ok b (mp2_alphabet A) (mp2_alphabet_sqr A)))"
proof -
  note T = assms(1)
  have c1: "\<exists>A B C D E. lr_set_base T P1 8 = Inr A \<and> lr_base A = 8 \<and>
       \<not> lr_reached_max_power A \<and> lr_powers A = [1, 8, 64, 512] \<and>
       lr_print T A 255 = Inr ((3, ''377''), B) \<and>
       lr_set_base T B 16 = Inr C \<and> lr_base C = 16 \<and>
       \<not> lr_reached_max_power C \<and> lr_powers C = [1, 16, 256, 4096] \<and>
       lr_setup_default_alphabet C = Inr D \<and> lr_print T D 255 = Inr ((2, ''ff''), E)"
    using T assms(2) by (rule lr_base_change)
  have c2: "\<exists>A B C D E. lr2_set_base T P2 8 = Inr A \<and> lr2_base A = 8 \<and> lr2_base_sqr A = 64 \<and>
       sqr_ok 8 (lr2_alphabet A) (lr2_alphabet_sqr A) \<and>
       \<not> lr2_reached_max_power A \<and> lr2_powers A = [1, 8, 64, 512] \<and>
       lr2_print T A 255 = Inr ((3, ''377''), B) \<and>
       lr2_set_base T B 16 = Inr C \<and> lr2_base C = 16 \<and> lr2_base_sqr C = 256 \<and>
       sqr_ok 16 (lr2_alphabet C) (lr2_alphabet_sqr C) \<and>
       \<not> lr2_reached_max_power C \<and> lr2_powers C = [1, 16, 256, 4096] \<and>
       lr2_setup_default_alphabet C = Inr D \<and> lr2_print T D 255 = Inr ((2, ''ff''), E)"
    using T assms(3) by (rule lr2_base_change)
  have c3: "\<exists>D. mp_print (mp_set_base P3 8) 255 = Inr (3, ''377'') \<and>
       mp_setup_default_alphabet (mp_set_base (mp_set_base P3 8) 16) = Inr D \<and>
       mp_print D 255 = Inr (2, ''ff'')"
    using assms(4) by (rule mp_base_change)
  have c4: "\<exists>A C D. mp2_set_base P4 8 = Inr A \<and> mp2_base A = 8 \<and> mp2_base_sqr A = 64 \<and>
       sqr_ok 8 (mp2_alphabet A) (mp2_alphabet_sqr A) \<and>
       mp2_print T A 255 = Inr (3, ''377'') \<and>
       mp2_set_base A 16 = Inr C \<and> mp2_base C = 16 \<and> mp2_base_sqr C = 256 \<and>
       sqr_ok 16 (mp2_alphabet C) (mp2_alphabet_sqr C) \<and>
       mp2_setup_default_alphabet C = Inr D \<and> mp2_print T D 255 = Inr (2, ''ff'')"
    using T assms(5) by (rule mp2_base_change)
  have g1: "\<forall>b. 2 \<le> b \<and> b \<le> 36 \<longrightarrow>
       (\<exists>A. lr_set_base T P1 b = Inr A \<and> lr_base A = b \<and> lr_alphabet A = lr_alphabet P1 \<and>
          \<not> lr_reached_max_power A \<and> lr_powers A = [1, b, b ^ 2, b ^ 3])"
    using lr_set_base_reset [OF T, of _ P1] by blast
  have g2: "\<forall>b. 2 \<le> b \<and> b \<le> 17 \<longrightarrow>
       (\<exists>A. lr2_set_base T P2 b = Inr A \<and> lr2_base A = b \<and> lr2_alphabet A = lr2_alphabet P2 \<and>
          lr2_base_sqr A = b * b \<and> sqr_ok b (lr2_alphabet A) (lr2_alphabet_sqr A) \<and>
          \<not> lr2_reached_max_power A \<and> lr2_powers A = [1, b, b ^ 2, b ^ 3])"
    using lr2_set_base_reset [OF T, of _ P2] by blast
  have g3: "\<forall>b. 2 \<le> b \<and> b \<le> 36 \<longrightarrow>
       (\<exists>A. mp2_set_base P4 b = Inr A \<and> mp2_base A = b \<and> mp2_alphabet A = mp2_alphabet P4 \<and>
          mp2_base_sqr A = b * b \<and> sqr_ok b (mp2_alphabet A) (mp2_alphabet_sqr A))"
  proof (intro allI impI)
    fix b :: int assume b: "2 \<le> b \<and> b \<le> 36"
    obtain A where A: "mp2_set_base P4 b = Inr A" "mp2_ok A" "mp2_base A = b"
      "mp2_alphabet A = mp2_alphabet P4"
      using mp2_set_base_correct [of b P4] b by auto
    have "mp2_base_sqr A = b * b" "sqr_ok b (mp2_alphabet A) (mp2_alphabet_sqr A)"
      using A(2,3) by (simp_all add: mp2_ok_def)
    then show "\<exists>A. mp2_set_base P4 b = Inr A \<and> mp2_base A = b \<and>
          mp2_alphabet A = mp2_alphabet P4 \<and>
          mp2_base_sqr A = b * b \<and> sqr_ok b (mp2_alphabet A) (mp2_alphabet_sqr A)"
      using A by blast
  qed
  show ?thesis using c1 c2 c3 c4 g1 g2 g3 by (intro conjI)
qed

theorem base_change_consistency_witness:
  "supported_numtype int_t \<and>
   has_default_alphabet 8 (default_chars 10 Map.empty) \<and>
   (\<exists>A B C D E. lr_set_base int_t \<lparr>lr_base = 10, lr_alphabet = default_chars 10 Map.empty, lr_reached_max_power = True,
       lr_powers = [1, 10, 100]\<rparr> 8 = Inr A \<and> lr_base A = 8 \<and>
       \<not> lr_reached_max_power A \<and> lr_powers A = [1, 8, 64, 512] \<and>
       lr_print int_t A 255 = Inr ((3, ''377''), B) \<and>
       lr_set_base int_t B 16 = Inr C \<and> lr_base C = 16 \<and>
       \<not> lr_reached_max_power C \<and> lr_powers C = [1, 16, 256, 4096] \<and>
       lr_setup_default_alphabet C = Inr D \<and> lr_print int_t D 255 = Inr ((2, ''ff''), E)) \<and>
   (\<exists>A B C D E. lr2_set_base int_t \<lparr>lr2_base = 10, lr2_base_sqr = 100, lr2_alphabet = default_chars 10 Map.empty,
       lr2_alphabet_sqr = Map.empty, lr2_reached_max_power = True, lr2_powers = [1, 10, 100]\<rparr> 8 = Inr A \<and> lr2_base A = 8 \<and> lr2_base_sqr A = 64 \<and>
       sqr_ok 8 (lr2_alphabet A) (lr2_alphabet_sqr A) \<and>
       \<not> lr2_reached_max_power A \<and> lr2_powers A = [1, 8, 64, 512] \<and>
       lr2_print int_t A 255 = Inr ((3, ''377''), B) \<and>
       lr2_set_base int_t B 16 = Inr C \<and> lr2_base C = 16 \<and> lr2_base_sqr C = 256 \<and>
       sqr_ok 16 (lr2_alphabet C) (lr2_alphabet_sqr C) \<and>
       \<not> lr2_reached_max_power C \<and> lr2_powers C = [1, 16, 256, 4096] \<and>
       lr2_setup_default_alphabet C = Inr D \<and> lr2_print int_t D 255 = Inr ((2, ''ff''), E)) \<and>
   (\<exists>D. mp_print (mp_set_base \<lparr>mp_base = 10, mp_alphabet = default_chars 10 Map.empty\<rparr> 8) 255 = Inr (3, ''377'') \<and>
       mp_setup_default_alphabet (mp_set_base (mp_set_base \<lparr>mp_base = 10, mp_alphabet = default_chars 10 Map.empty\<rparr> 8) 16) = Inr D \<and>
       mp_print D 255 = Inr (2, ''ff'')) \<and>
   (\<exists>A C D. mp2_set_base \<lparr>mp2_base = 10, mp2_base_sqr = 100, mp2_alphabet = default_chars 10 Map.empty,
       mp2_alphabet_sqr = Map.empty\<rparr> 8 = Inr A \<and> mp2_base A = 8 \<and> mp2_base_sqr A = 64 \<and>
       sqr_ok 8 (mp2_alphabet A) (mp2_alphabet_sqr A) \<and>
       mp2_print int_t A 255 = Inr (3, ''377'') \<and>
       mp2_set_base A 16 = Inr C \<and> mp2_base C = 16 \<and> mp2_base_sqr C = 256 \<and>
       sqr_ok 16 (mp2_alphabet C) (mp2_alphabet_sqr C) \<and>
       mp2_setup_default_alphabet C = Inr D \<and> mp2_print int_t D 255 = Inr (2, ''ff''))"
proof -
  have a: "has_default_alphabet 8 (default_chars 10 Map.empty)"
    using has_default_alphabet_default_chars [of 10 Map.empty]
    by (rule has_default_alphabet_smaller) simp_all
  note r = base_change_consistency [OF supported_int_t,
      of "\<lparr>lr_base = 10, lr_alphabet = default_chars 10 Map.empty, lr_reached_max_power = True,
       lr_powers = [1, 10, 100]\<rparr>"
         "\<lparr>lr2_base = 10, lr2_base_sqr = 100, lr2_alphabet = default_chars 10 Map.empty,
       lr2_alphabet_sqr = Map.empty, lr2_reached_max_power = True, lr2_powers = [1, 10, 100]\<rparr>"
         "\<lparr>mp_base = 10, mp_alphabet = default_chars 10 Map.empty\<rparr>"
         "\<lparr>mp2_base = 10, mp2_base_sqr = 100, mp2_alphabet = default_chars 10 Map.empty,
       mp2_alphabet_sqr = Map.empty\<rparr>"]
  have r': "(\<exists>A B C D E. lr_set_base int_t \<lparr>lr_base = 10, lr_alphabet = default_chars 10 Map.empty, lr_reached_max_power = True,
       lr_powers = [1, 10, 100]\<rparr> 8 = Inr A \<and> lr_base A = 8 \<and>
       \<not> lr_reached_max_power A \<and> lr_powers A = [1, 8, 64, 512] \<and>
       lr_print int_t A 255 = Inr ((3, ''377''), B) \<and>
       lr_set_base int_t B 16 = Inr C \<and> lr_base C = 16 \<and>
       \<not> lr_reached_max_power C \<and> lr_powers C = [1, 16, 256, 4096] \<and>
       lr_setup_default_alphabet C = Inr D \<and> lr_print int_t D 255 = Inr ((2, ''ff''), E)) \<and>
   (\<exists>A B C D E. lr2_set_base int_t \<lparr>lr2_base = 10, lr2_base_sqr = 100, lr2_alphabet = default_chars 10 Map.empty,
       lr2_alphabet_sqr = Map.empty, lr2_reached_max_power = True, lr2_powers = [1, 10, 100]\<rparr> 8 = Inr A \<and> lr2_base A = 8 \<and> lr2_base_sqr A = 64 \<and>
       sqr_ok 8 (lr2_alphabet A) (lr2_alphabet_sqr A) \<and>
       \<not> lr2_reached_max_power A \<and> lr2_powers A = [1, 8, 64, 512] \<and>
       lr2_print int_t A 255 = Inr ((3, ''377''), B) \<and>
       lr2_set_base int_t B 16 = Inr C \<and> lr2_base C = 16 \<and> lr2_base_sqr C = 256 \<and>
       sqr_ok 16 (lr2_alphabet C) (lr2_alphabet_sqr C) \<and>
       \<not> lr2_reached_max_power C \<and> lr2_powers C = [1, 16, 256, 4096] \<and>
       lr2_setup_default_alphabet C = Inr D \<and> lr2_print int_t D 255 = Inr ((2, ''ff''), E)) \<and>
   (\<exists>D. mp_print (mp_set_base \<lparr>mp_base = 10, mp_alphabet = default_chars 10 Map.empty\<rparr> 8) 255 = Inr (3, ''377'') \<and>
       mp_setup_default_alphabet (mp_set_base (mp_set_base \<lparr>mp_base = 10, mp_alphabet = default_chars 10 Map.empty\<rparr> 8) 16) = Inr D \<and>
       mp_print D 255 = Inr (2, ''ff'')) \<and>
   (\<exists>A C D. mp2_set_base \<lparr>mp2_base = 10, mp2_base_sqr = 100, mp2_alphabet = default_chars 10 Map.empty,
       mp2_alphabet_sqr = Map.empty\<rparr> 8 = Inr A \<and> mp2_base A = 8 \<and> mp2_base_sqr A = 64 \<and>
       sqr_ok 8 (mp2_alphabet A) (mp2_alphabet_sqr A) \<and>
       mp2_print int_t A 255 = Inr (3, ''377'') \<and>
       mp2_set_base A 16 = Inr C \<and> mp2_base C = 16 \<and> mp2_base_sqr C = 256 \<and>
       sqr_ok 16 (mp2_alphabet C) (mp2_alphabet_sqr C) \<and>
       mp2_setup_default_alphabet C = Inr D \<and> mp2_print int_t D 255 = Inr (2, ''ff''))"
    using r a by simp
  show ?thesis using supported_int_t a r' by (intro conjI) simp_all
qed













end
